theory Spec2Isabelle
  imports Complex_Main
begin

unbundle bit_operations_syntax

section \<open>C++ integer types\<close>

text \<open>
  The functions of \<^verbatim>\<open>thrust/detail/integer_math.h\<close> are templates over an integer type
  \<^verbatim>\<open>Integer\<close>. A type is described by its signedness and its width in bits; a value of the
  type is the mathematical integer it denotes. Every arithmetic step of the source is
  written with the conversion C++ applies at that step, so the model is an \<open>int\<close> model
  with the wrap-around written out.
\<close>

record integer_type =
  is_signed :: bool
  bits :: nat

definition signed_char :: integer_type where
  "signed_char = \<lparr>is_signed = True, bits = 8\<rparr>"

definition unsigned_char :: integer_type where
  "unsigned_char = \<lparr>is_signed = False, bits = 8\<rparr>"

definition short_int :: integer_type where
  "short_int = \<lparr>is_signed = True, bits = 16\<rparr>"

definition unsigned_short :: integer_type where
  "unsigned_short = \<lparr>is_signed = False, bits = 16\<rparr>"

text \<open>\<^verbatim>\<open>int\<close> has 32 bits on every platform the library is built for.\<close>

definition int_type :: integer_type where
  "int_type = \<lparr>is_signed = True, bits = 32\<rparr>"

definition unsigned_int :: integer_type where
  "unsigned_int = \<lparr>is_signed = False, bits = 32\<rparr>"

definition long_long :: integer_type where
  "long_long = \<lparr>is_signed = True, bits = 64\<rparr>"

definition unsigned_long_long :: integer_type where
  "unsigned_long_long = \<lparr>is_signed = False, bits = 64\<rparr>"

text \<open>\<^verbatim>\<open>std::numeric_limits<Integer>::digits\<close>: the number of bits that are not the sign bit.\<close>

definition digits :: "integer_type \<Rightarrow> nat" where
  "digits T = (if is_signed T then bits T - 1 else bits T)"

text \<open>The values a type holds.\<close>

definition in_range :: "integer_type \<Rightarrow> int \<Rightarrow> bool" where
  "in_range T x =
     (if is_signed T then - (2 ^ (bits T - 1)) \<le> x \<and> x < 2 ^ (bits T - 1)
      else 0 \<le> x \<and> x < 2 ^ bits T)"

text \<open>
  Conversion of a value to a type: modulo \<open>2 ^ bits\<close> into an unsigned type, two's
  complement into a signed one. The result of a signed operation that overflows is
  undefined in C++; the model gives it the two's complement value the hardware computes.
\<close>

definition conv :: "integer_type \<Rightarrow> int \<Rightarrow> int" where
  "conv T v = (if is_signed T then signed_take_bit (bits T - 1) v else take_bit (bits T) v)"

text \<open>
  The type in which a binary operator between an \<^verbatim>\<open>int\<close> and an \<^verbatim>\<open>Integer\<close> is evaluated
  (the usual arithmetic conversions): a type narrower than \<^verbatim>\<open>int\<close> is promoted to \<^verbatim>\<open>int\<close>,
  any other type is the common type itself.
\<close>

definition common :: "integer_type \<Rightarrow> integer_type" where
  "common T = (if bits T < 32 then int_type else T)"

definition add_in :: "integer_type \<Rightarrow> int \<Rightarrow> int \<Rightarrow> int" where
  "add_in C a b = conv C (conv C a + conv C b)"

definition sub_in :: "integer_type \<Rightarrow> int \<Rightarrow> int \<Rightarrow> int" where
  "sub_in C a b = conv C (conv C a - conv C b)"

definition and_in :: "integer_type \<Rightarrow> int \<Rightarrow> int \<Rightarrow> int" where
  "and_in C a b = conv C a AND conv C b"

text \<open>
  The \<^verbatim>\<open>int\<close> expression \<^verbatim>\<open>1 << i\<close>. For \<open>i < 31\<close> it is \<open>2 ^ i\<close>; for \<open>i = 31\<close> it is the
  most negative \<^verbatim>\<open>int\<close>. For \<open>i \<ge> 32\<close> C++ leaves the shift undefined and processors
  differ, so the value is a parameter \<open>ovf\<close> of the model, read as an \<^verbatim>\<open>int\<close>.
\<close>

definition shl_int :: "(nat \<Rightarrow> int) \<Rightarrow> nat \<Rightarrow> int" where
  "shl_int ovf i =
     (if i < 31 then 2 ^ i else if i = 31 then - (2 ^ 31) else conv int_type (ovf i))"

text \<open>A shift by 32 or more that yields 0 (the count saturates), as on the GPU.\<close>

definition shl_saturating :: "nat \<Rightarrow> int" where
  "shl_saturating i = 0"

text \<open>A shift that uses the low five bits of its count, as on x86.\<close>

definition shl_masked :: "nat \<Rightarrow> int" where
  "shl_masked i = (if i mod 32 = 31 then - (2 ^ 31) else 2 ^ (i mod 32))"

section \<open>Integer math utilities\<close>

text \<open>
  \<^verbatim>\<open>clz\<close>: the loop \<^verbatim>\<open>for(int i = num_non_sign_bits; i >= 0; --i)\<close> with its early
  return, as a recursion on the loop variable.
\<close>

function clz_loop :: "(nat \<Rightarrow> int) \<Rightarrow> integer_type \<Rightarrow> int \<Rightarrow> int \<Rightarrow> int" where
  "clz_loop ovf T x i =
     (if 0 \<le> i then
        (if and_in (common T) (shl_int ovf (nat i)) x \<noteq> 0
         then conv T (sub_in (common T) (conv T (int (digits T))) i)
         else clz_loop ovf T x (i - 1))
      else conv T (add_in (common T) (conv T (int (digits T))) 1))"
  by pat_completeness auto
termination
  by (relation "measure (\<lambda>(ovf, T, x, i). nat (i + 1))") auto

declare clz_loop.simps [simp del]

definition clz :: "(nat \<Rightarrow> int) \<Rightarrow> integer_type \<Rightarrow> int \<Rightarrow> int" where
  "clz ovf T x = clz_loop ovf T x (conv int_type (conv T (int (digits T))))"

definition is_power_of_2 :: "integer_type \<Rightarrow> int \<Rightarrow> bool" where
  "is_power_of_2 T x = (0 = and_in (common T) x (sub_in (common T) x 1))"

definition log2 :: "(nat \<Rightarrow> int) \<Rightarrow> integer_type \<Rightarrow> int \<Rightarrow> int" where
  "log2 ovf T x = conv T (sub_in (common T) (int (digits T)) (clz ovf T x))"

definition log2_ri :: "(nat \<Rightarrow> int) \<Rightarrow> integer_type \<Rightarrow> int \<Rightarrow> int" where
  "log2_ri ovf T x =
     (let result = log2 ovf T x
      in if \<not> is_power_of_2 T x then conv T (add_in (common T) result 1) else result)"

definition is_odd :: "integer_type \<Rightarrow> int \<Rightarrow> bool" where
  "is_odd T x = (and_in (common T) 1 x \<noteq> 0)"

text \<open>
  The words of the specification about bits, for a value \<open>x\<close> read in two's complement
  at the width of a type: \<open>x\<close> has its highest set bit at position \<open>i\<close>, and \<open>x\<close> has
  exactly one set bit.
\<close>

definition highest_set_bit :: "integer_type \<Rightarrow> int \<Rightarrow> nat \<Rightarrow> bool" where
  "highest_set_bit T x i = (i < bits T \<and> bit x i \<and> (\<forall>n\<in>{i<..<bits T}. \<not> bit x n))"

definition one_set_bit :: "integer_type \<Rightarrow> int \<Rightarrow> bool" where
  "one_set_bit T x = (\<exists>k\<in>{..<bits T}. \<forall>n\<in>{..<bits T}. bit x n = (n = k))"

section \<open>Execution policies with an allocator\<close>

text \<open>
  \<^verbatim>\<open>thrust/detail/execute_with_allocator_fwd.h\<close>. Policy objects live in a store, a list
  of objects addressed by position, so that what a constructor or a member function
  does to the object it is given is visible: an operation takes the state and returns
  the new one, and a C++ reference is the address it refers to. A new object is put at
  the end of the store. The state also records, in order, the values handed to the
  capture conversion, which is a collaborator outside these sources.
\<close>

type_synonym addr = nat

text \<open>
  What a member or a parameter declared \<^verbatim>\<open>Allocator\<close> is. The template is written for
  an object type, where it is an allocator of its own, and for a reference type
  \<^verbatim>\<open>T&\<close> (hence \<^verbatim>\<open>remove_reference_t<Allocator>&\<close> as the result of \<^verbatim>\<open>get_allocator\<close>),
  where it is bound to an allocator object that lives elsewhere in the store.
  Initialising one from another copies the allocator in the first case and binds to
  the same object in the second.
\<close>

datatype 'a member = Held 'a | Bound addr

text \<open>
  \<^verbatim>\<open>struct execute_with_allocator : BaseSystem<...>\<close> with its member
  \<^verbatim>\<open>Allocator alloc\<close>; \<open>super\<close> is the base class subobject.
\<close>

record ('b, 'a) execute_with_allocator =
  super :: 'b
  alloc :: "'a member"

text \<open>
  Modelled from the spec: the class \<^verbatim>\<open>execute_with_allocator_and_dependencies\<close>, declared
  in \<^verbatim>\<open>thrust/detail/execute_with_dependencies.h\<close>, which is not among the sources. The
  specification describes it as a policy that has an allocator and an ordered sequence
  of dependency handles. The constructor that \<^verbatim>\<open>after\<close> calls is given no base policy.
\<close>

record ('a, 'd) execute_with_allocator_and_dependencies =
  allocator :: "'a member"
  dependencies :: "'d list"

datatype ('b, 'a, 'd) object =
    Base 'b
  | With_allocator "('b, 'a) execute_with_allocator"
  | With_dependencies "('a, 'd) execute_with_allocator_and_dependencies"
  | Allocator_object 'a

record ('b, 'a, 'd, 'v) state =
  heap :: "('b, 'a, 'd) object list"
  captured :: "'v list"

definition lookup :: "'o list \<Rightarrow> addr \<Rightarrow> 'o option" where
  "lookup h p = (if p < length h then Some (h ! p) else None)"

text \<open>
  What a \<^verbatim>\<open>super_t const&\<close> binds to: a base policy object, or the base class subobject
  of an allocator policy.
\<close>

fun base_of :: "('b, 'a, 'd) object \<Rightarrow> 'b option" where
  "base_of (Base b) = Some b"
| "base_of (With_allocator e) = Some (super e)"
| "base_of (With_dependencies e) = None"
| "base_of (Allocator_object a) = None"

text \<open>
  The constructor \<^verbatim>\<open>execute_with_allocator(super_t const& super, Allocator alloc_)\<close>:
  \<^verbatim>\<open>super_t(super), alloc(alloc_)\<close>. The result is the address of the new object; a
  reference that refers to no policy gives \<open>None\<close>.
\<close>

definition new_execute_with_allocator ::
  "('b, 'a, 'd, 'v) state \<Rightarrow> addr \<Rightarrow> 'a member
     \<Rightarrow> (addr \<times> ('b, 'a, 'd, 'v) state) option" where
  "new_execute_with_allocator s super_ref a =
     (case Option.bind (lookup (heap s) super_ref) base_of of
        None \<Rightarrow> None
      | Some b \<Rightarrow>
          Some (length (heap s),
                s\<lparr>heap := heap s @ [With_allocator \<lparr>super = b, alloc = a\<rparr>]\<rparr>))"

text \<open>
  A reference to an allocator: to the member \<^verbatim>\<open>alloc\<close> of the policy object at an
  address, or to an allocator object at an address; with reading and assignment through
  it. A reference that refers to no allocator gives \<open>None\<close>.
\<close>

datatype reference = Alloc_of addr | Object_at addr

fun read_ref :: "('b, 'a, 'd, 'v) state \<Rightarrow> reference \<Rightarrow> 'a option" where
  "read_ref s (Alloc_of p) =
     (case lookup (heap s) p of
        Some (With_allocator e) \<Rightarrow> (case alloc e of Held a \<Rightarrow> Some a | Bound r \<Rightarrow> None)
      | _ \<Rightarrow> None)"
| "read_ref s (Object_at p) =
     (case lookup (heap s) p of
        Some (Allocator_object a) \<Rightarrow> Some a
      | _ \<Rightarrow> None)"

fun write_ref ::
  "('b, 'a, 'd, 'v) state \<Rightarrow> reference \<Rightarrow> 'a \<Rightarrow> ('b, 'a, 'd, 'v) state option" where
  "write_ref s (Alloc_of p) v =
     (case lookup (heap s) p of
        Some (With_allocator e) \<Rightarrow>
          (case alloc e of
             Held a \<Rightarrow> Some (s\<lparr>heap := (heap s)[p := With_allocator (e\<lparr>alloc := Held v\<rparr>)]\<rparr>)
           | Bound r \<Rightarrow> None)
      | _ \<Rightarrow> None)"
| "write_ref s (Object_at p) v =
     (case lookup (heap s) p of
        Some (Allocator_object a) \<Rightarrow> Some (s\<lparr>heap := (heap s)[p := Allocator_object v]\<rparr>)
      | _ \<Rightarrow> None)"

text \<open>
  \<^verbatim>\<open>remove_reference_t<Allocator>& get_allocator() { return alloc; }\<close>: a reference to
  the member when the member is an allocator, and to the object the member is bound to
  when the member is a reference.
\<close>

definition get_allocator ::
  "('b, 'a, 'd, 'v) state \<Rightarrow> addr \<Rightarrow> (reference \<times> ('b, 'a, 'd, 'v) state) option" where
  "get_allocator s this =
     (case lookup (heap s) this of
        Some (With_allocator e) \<Rightarrow>
          (case alloc e of
             Held a \<Rightarrow> Some (Alloc_of this, s)
           | Bound r \<Rightarrow> Some (Object_at r, s))
      | _ \<Rightarrow> None)"

text \<open>
  Modelled from the spec: \<^verbatim>\<open>capture_as_dependency\<close> on one value, declared in
  \<^verbatim>\<open>thrust/detail/execute_with_dependencies.h\<close>, which is not among the sources. It is the
  capture conversion that normalises a value into a dependency handle; the conversion
  itself is the parameter \<open>cap\<close>, and each call is recorded.
\<close>

definition capture_as_dependency ::
  "('v \<Rightarrow> 'd) \<Rightarrow> 'v \<Rightarrow> ('b, 'a, 'd, 'v) state \<Rightarrow> 'd \<times> ('b, 'a, 'd, 'v) state" where
  "capture_as_dependency cap v s = (cap v, s\<lparr>captured := captured s @ [v]\<rparr>)"

text \<open>
  The pack expansion \<^verbatim>\<open>capture_as_dependency(THRUST_FWD(dependencies))...\<close> inside a braced
  initialiser list, whose elements are evaluated from left to right.
\<close>

fun capture_pack ::
  "('v \<Rightarrow> 'd) \<Rightarrow> 'v list \<Rightarrow> ('b, 'a, 'd, 'v) state \<Rightarrow> 'd list \<times> ('b, 'a, 'd, 'v) state" where
  "capture_pack cap [] s = ([], s)"
| "capture_pack cap (v # vs) s =
     (case capture_as_dependency cap v s of
        (d, s1) \<Rightarrow> (case capture_pack cap vs s1 of (ds, s2) \<Rightarrow> (d # ds, s2)))"

text \<open>
  Modelled from the spec: \<^verbatim>\<open>capture_as_dependency\<close> on a tuple, declared in
  \<^verbatim>\<open>thrust/detail/execute_with_dependencies.h\<close>, which is not among the sources. The
  specification requires the collection form to normalise to the same ordered sequence
  as the variadic form: every element of the collection is converted, in its order.
\<close>

definition capture_as_dependency_tuple ::
  "('v \<Rightarrow> 'd) \<Rightarrow> 'v list \<Rightarrow> ('b, 'a, 'd, 'v) state \<Rightarrow> 'd list \<times> ('b, 'a, 'd, 'v) state" where
  "capture_as_dependency_tuple cap vs s = (map cap vs, s\<lparr>captured := captured s @ vs\<rparr>)"

text \<open>
  Modelled from the spec: the constructors of \<^verbatim>\<open>execute_with_allocator_and_dependencies\<close>
  that take an allocator and the captured dependencies (as a pack or as one tuple),
  which are not among the sources. The new policy stores both.
\<close>

definition new_execute_with_allocator_and_dependencies ::
  "'a member \<Rightarrow> 'd list \<Rightarrow> ('b, 'a, 'd, 'v) state \<Rightarrow> addr \<times> ('b, 'a, 'd, 'v) state" where
  "new_execute_with_allocator_and_dependencies a ds s =
     (length (heap s),
      s\<lparr>heap := heap s @ [With_dependencies \<lparr>allocator = a, dependencies = ds\<rparr>]\<rparr>)"

text \<open>
  \<^verbatim>\<open>after(Dependencies&&... dependencies) const\<close>:
  \<^verbatim>\<open>return {alloc, capture_as_dependency(THRUST_FWD(dependencies))...};\<close>
\<close>

definition after ::
  "('v \<Rightarrow> 'd) \<Rightarrow> ('b, 'a, 'd, 'v) state \<Rightarrow> addr \<Rightarrow> 'v list
     \<Rightarrow> (addr \<times> ('b, 'a, 'd, 'v) state) option" where
  "after cap s this deps =
     (case lookup (heap s) this of
        Some (With_allocator e) \<Rightarrow>
          (case capture_pack cap deps s of
             (ds, s1) \<Rightarrow> Some (new_execute_with_allocator_and_dependencies (alloc e) ds s1))
      | _ \<Rightarrow> None)"

text \<open>
  \<^verbatim>\<open>after(std::tuple<Dependencies...>& dependencies) const\<close> and the overload on
  \<^verbatim>\<open>std::tuple<Dependencies...>&&\<close>: \<^verbatim>\<open>return {alloc, capture_as_dependency(dependencies)};\<close>
\<close>

definition after_tuple ::
  "('v \<Rightarrow> 'd) \<Rightarrow> ('b, 'a, 'd, 'v) state \<Rightarrow> addr \<Rightarrow> 'v list
     \<Rightarrow> (addr \<times> ('b, 'a, 'd, 'v) state) option" where
  "after_tuple cap s this deps =
     (case lookup (heap s) this of
        Some (With_allocator e) \<Rightarrow>
          (case capture_as_dependency_tuple cap deps s of
             (ds, s1) \<Rightarrow> Some (new_execute_with_allocator_and_dependencies (alloc e) ds s1))
      | _ \<Rightarrow> None)"

text \<open>
  \<^verbatim>\<open>rebind_after(Dependencies&&... dependencies) const\<close>:
  \<^verbatim>\<open>return {alloc, capture_as_dependency(THRUST_FWD(dependencies))...};\<close>
\<close>

definition rebind_after ::
  "('v \<Rightarrow> 'd) \<Rightarrow> ('b, 'a, 'd, 'v) state \<Rightarrow> addr \<Rightarrow> 'v list
     \<Rightarrow> (addr \<times> ('b, 'a, 'd, 'v) state) option" where
  "rebind_after cap s this deps =
     (case lookup (heap s) this of
        Some (With_allocator e) \<Rightarrow>
          (case capture_pack cap deps s of
             (ds, s1) \<Rightarrow> Some (new_execute_with_allocator_and_dependencies (alloc e) ds s1))
      | _ \<Rightarrow> None)"

text \<open>
  \<^verbatim>\<open>rebind_after(std::tuple<Dependencies...>& dependencies) const\<close> and the overload on
  \<^verbatim>\<open>std::tuple<Dependencies...>&&\<close>: \<^verbatim>\<open>return {alloc, capture_as_dependency(dependencies)};\<close>
\<close>

definition rebind_after_tuple ::
  "('v \<Rightarrow> 'd) \<Rightarrow> ('b, 'a, 'd, 'v) state \<Rightarrow> addr \<Rightarrow> 'v list
     \<Rightarrow> (addr \<times> ('b, 'a, 'd, 'v) state) option" where
  "rebind_after_tuple cap s this deps =
     (case lookup (heap s) this of
        Some (With_allocator e) \<Rightarrow>
          (case capture_as_dependency_tuple cap deps s of
             (ds, s1) \<Rightarrow> Some (new_execute_with_allocator_and_dependencies (alloc e) ds s1))
      | _ \<Rightarrow> None)"

text \<open>The object an operation returns, read in the state it leaves.\<close>

definition object_of :: "(addr \<times> ('b, 'a, 'd, 'v) state) option \<Rightarrow> ('b, 'a, 'd) object option" where
  "object_of res = (case res of None \<Rightarrow> None | Some (r, t) \<Rightarrow> lookup (heap t) r)"

section \<open>Conversions of values in range\<close>

lemma conv_id: "in_range T v \<Longrightarrow> conv T v = v"
  by (auto simp: conv_def in_range_def signed_take_bit_int_eq_self_iff take_bit_int_eq_self_iff)

lemma small_less_power: "8 \<le> n \<Longrightarrow> int n + 1 < 2 ^ (n - 1)"
proof (induction n rule: nat_induct_at_least)
  case base
  show ?case by simp
next
  case (Suc n)
  then have "int n + 1 < 2 ^ (n - 1)" by simp
  moreover have "(2::int) ^ (Suc n - 1) = 2 * 2 ^ (n - 1)"
    using Suc.hyps by (cases n) simp_all
  ultimately show ?case by simp
qed

lemma count_in_range:
  assumes "8 \<le> bits T" and "0 \<le> k" and "k \<le> int (digits T) + 1"
  shows "in_range T k"
proof -
  have a: "int (bits T) + 1 < 2 ^ (bits T - 1)"
    using assms(1) by (rule small_less_power)
  have b: "(2::int) ^ (bits T - 1) \<le> 2 ^ bits T"
    by (rule power_increasing) simp_all
  show ?thesis
  proof (cases "is_signed T")
    case True
    then have "k \<le> int (bits T)"
      using assms(1,3) by (simp add: digits_def)
    with a have "k < 2 ^ (bits T - 1)" by linarith
    moreover have "- (2 ^ (bits T - 1)) \<le> (0::int)" by simp
    ultimately show ?thesis
      using True assms(2) by (simp add: in_range_def)
  next
    case False
    then have "k \<le> int (bits T) + 1"
      using assms(3) by (simp add: digits_def)
    with a b have "k < 2 ^ bits T" by linarith
    then show ?thesis
      using False assms(2) by (simp add: in_range_def)
  qed
qed

lemma count_in_common:
  assumes "8 \<le> bits T" and "0 \<le> k" and "k \<le> int (digits T) + 1"
  shows "in_range (common T) k"
proof (cases "bits T < 32")
  case True
  then have "k \<le> 32" using assms(3) by (simp add: digits_def split: if_splits)
  then show ?thesis using True assms(2) by (simp add: common_def in_range_def int_type_def)
next
  case False
  then show ?thesis using assms by (simp add: common_def count_in_range)
qed

lemma conv_count:
  "8 \<le> bits T \<Longrightarrow> 0 \<le> k \<Longrightarrow> k \<le> int (digits T) + 1 \<Longrightarrow> conv T k = k"
  by (simp add: conv_id count_in_range)

lemma conv_common_count:
  "8 \<le> bits T \<Longrightarrow> 0 \<le> k \<Longrightarrow> k \<le> int (digits T) + 1 \<Longrightarrow> conv (common T) k = k"
  by (simp add: conv_id count_in_common)

section \<open>The scan of \<open>clz\<close> on zero\<close>

lemma and_in_zero: "and_in C m 0 = 0"
  by (simp add: and_in_def conv_def)

lemma clz_loop_zero:
  "clz_loop ovf T 0 i = conv T (add_in (common T) (conv T (int (digits T))) 1)"
proof (induction ovf T "0::int" i rule: clz_loop.induct)
  case (1 ovf T i)
  show ?case
  proof (cases "0 \<le> i")
    case True
    then show ?thesis using 1 by (subst clz_loop.simps) (simp add: and_in_zero)
  next
    case False
    then show ?thesis by (subst clz_loop.simps) simp
  qed
qed

lemma sentinel_value:
  assumes "8 \<le> bits T"
  shows "conv T (add_in (common T) (conv T (int (digits T))) 1) = int (digits T) + 1"
proof -
  have d: "conv T (int (digits T)) = int (digits T)"
    using assms by (rule conv_count) simp_all
  have c: "conv (common T) (int (digits T)) = int (digits T)"
    using assms by (rule conv_common_count) simp_all
  have one: "conv (common T) 1 = 1"
    using assms by (rule conv_common_count) simp_all
  have s: "conv (common T) (int (digits T) + 1) = int (digits T) + 1"
    using assms by (rule conv_common_count) simp_all
  have t: "conv T (int (digits T) + 1) = int (digits T) + 1"
    using assms by (rule conv_count) simp_all
  show ?thesis
    unfolding add_in_def d c one s t ..
qed

text \<open>
  C5. For every integer type (of at least eight bits) \<^verbatim>\<open>clz(0)\<close> returns exactly
  \<open>digits + 1\<close>. The function is total, and the result does not depend on what the
  shifts by 32 or more yield: every mask the scan builds is tested against zero.
\<close>

theorem clz_zero: "8 \<le> bits T \<Longrightarrow> clz ovf T 0 = int (digits T) + 1"
  unfolding clz_def clz_loop_zero by (rule sentinel_value)

theorem clz_zero_witness:
  "8 \<le> bits unsigned_int \<and> clz shl_masked unsigned_int 0 = 33"
  using clz_zero [of unsigned_int shl_masked] by (simp add: unsigned_int_def digits_def)

section \<open>Masks and bits\<close>

lemma bits_common: "8 \<le> bits T \<Longrightarrow> 32 \<le> bits (common T)"
  by (simp add: common_def int_type_def)

lemma bits_common_narrow: "bits T \<le> 32 \<Longrightarrow> bits (common T) = 32"
  by (simp add: common_def int_type_def)

lemma bits_common_wide: "32 \<le> bits T \<Longrightarrow> common T = T"
  by (simp add: common_def)

lemma conv_and: "conv C (a AND b) = conv C a AND conv C b"
proof (cases "is_signed C")
  case True
  have "signed_take_bit n (a AND b) = signed_take_bit n a AND signed_take_bit n b" for n
    by (rule bit_eqI) (auto simp: bit_signed_take_bit_iff bit_and_iff)
  then show ?thesis using True by (simp add: conv_def)
next
  case False
  then show ?thesis by (simp add: conv_def)
qed

lemma conv_eq_0_iff:
  assumes "0 < bits C"
  shows "conv C z = 0 \<longleftrightarrow> take_bit (bits C) z = 0"
proof (cases "is_signed C")
  case True
  have "signed_take_bit (bits C - 1) z = signed_take_bit (bits C - 1) 0 \<longleftrightarrow>
      take_bit (Suc (bits C - 1)) z = take_bit (Suc (bits C - 1)) 0"
    by (rule signed_take_bit_eq_iff_take_bit_eq)
  then show ?thesis using True assms by (simp add: conv_def)
next
  case False
  then show ?thesis by (simp add: conv_def)
qed

lemma take_bit_eq_0_bits: "take_bit n (z::int) = 0 \<longleftrightarrow> (\<forall>k<n. \<not> bit z k)"
  by (auto simp: bit_eq_iff bit_take_bit_iff)

lemma and_in_eq_0_iff:
  assumes "0 < bits C"
  shows "and_in C a b = 0 \<longleftrightarrow> (\<forall>n<bits C. \<not> (bit a n \<and> bit b n))"
proof -
  have "and_in C a b = conv C (a AND b)"
    by (simp add: and_in_def conv_and)
  also have "\<dots> = 0 \<longleftrightarrow> take_bit (bits C) (a AND b) = 0"
    using assms by (rule conv_eq_0_iff)
  also have "\<dots> \<longleftrightarrow> (\<forall>n<bits C. \<not> bit (a AND b) n)"
    by (rule take_bit_eq_0_bits)
  finally show ?thesis
    by (simp add: bit_and_iff)
qed

lemma bit_min_int: "bit (- 2147483648 :: int) n \<longleftrightarrow> 31 \<le> n"
proof -
  have "(- 2147483648 :: int) = - (2 ^ 31)" by simp
  then show ?thesis
    by (simp only: bit_minus_exp_iff) simp
qed

lemma test_low:
  assumes "32 \<le> bits C" and "i < 31"
  shows "and_in C (shl_int ovf i) x \<noteq> 0 \<longleftrightarrow> bit x i"
proof -
  have "0 < bits C" using assms(1) by simp
  moreover have "shl_int ovf i = 2 ^ i" using assms(2) by (simp add: shl_int_def)
  moreover have "i < bits C" using assms by simp
  ultimately show ?thesis
    by (auto simp: and_in_eq_0_iff bit_exp_iff)
qed

lemma test_31:
  assumes "32 \<le> bits C"
  shows "and_in C (shl_int ovf 31) x \<noteq> 0 \<longleftrightarrow> (\<exists>n. 31 \<le> n \<and> n < bits C \<and> bit x n)"
proof -
  have "0 < bits C" using assms(1) by simp
  moreover have "shl_int ovf 31 = - 2147483648" by (simp add: shl_int_def)
  ultimately show ?thesis
    by (auto simp: and_in_eq_0_iff bit_min_int)
qed

lemma test_zero_mask:
  assumes "shl_int ovf i = 0"
  shows "and_in C (shl_int ovf i) x = 0"
  using assms by (simp add: and_in_def conv_def)

lemma shl_int_saturating: "31 < j \<Longrightarrow> shl_int shl_saturating j = 0"
  by (simp add: shl_int_def shl_saturating_def conv_def)

section \<open>The power-of-two test\<close>

lemma and_pred_even:
  fixes z :: int
  shows "(2 * z) AND (2 * z - 1) = 2 * (z AND (z - 1))"
proof -
  have "(2 * z - 1) div 2 = z - 1" by simp
  moreover have "odd (2 * z - 1)" by simp
  ultimately show ?thesis
    by (subst and_int_rec) simp
qed

lemma and_pred_odd:
  fixes z :: int
  shows "(2 * z + 1) AND (2 * z + 1 - 1) = 2 * z"
  by (subst and_int_rec) simp

lemma and_pred_eq_0_iff:
  fixes y :: int
  assumes "0 < y"
  shows "y AND (y - 1) = 0 \<longleftrightarrow> (\<exists>k. y = 2 ^ k)"
  using assms
proof (induction "nat y" arbitrary: y rule: less_induct)
  case less
  show ?case
  proof (cases "even y")
    case True
    then obtain z where z: "y = 2 * z" by (auto elim: evenE)
    with less.prems have zpos: "0 < z" by simp
    then have "nat z < nat y" using z by simp
    then have ih: "z AND (z - 1) = 0 \<longleftrightarrow> (\<exists>k. z = 2 ^ k)"
      using zpos by (rule less.hyps)
    have "y AND (y - 1) = 0 \<longleftrightarrow> z AND (z - 1) = 0"
      by (simp add: z and_pred_even)
    also have "\<dots> \<longleftrightarrow> (\<exists>k. y = 2 ^ k)"
    proof
      assume "z AND (z - 1) = 0"
      with ih obtain k where "z = 2 ^ k" by blast
      then have "y = 2 ^ Suc k" by (simp add: z)
      then show "\<exists>k. y = 2 ^ k" ..
    next
      assume "\<exists>k. y = 2 ^ k"
      then obtain k where k: "y = 2 ^ k" ..
      with True have "k \<noteq> 0" by (cases k) auto
      then obtain j where "k = Suc j" by (cases k) auto
      with k z have "z = 2 ^ j" by simp
      with ih show "z AND (z - 1) = 0" by blast
    qed
    finally show ?thesis .
  next
    case False
    then obtain z where z: "y = 2 * z + 1" by (auto elim: oddE)
    have "y AND (y - 1) = 0 \<longleftrightarrow> z = 0"
      unfolding z and_pred_odd by simp
    also have "\<dots> \<longleftrightarrow> (\<exists>k. y = 2 ^ k)"
    proof
      assume "z = 0"
      then have "y = 2 ^ 0" by (simp add: z)
      then show "\<exists>k. y = 2 ^ k" ..
    next
      assume "\<exists>k. y = 2 ^ k"
      then obtain k where k: "y = 2 ^ k" ..
      with False have "k = 0" by (cases k) auto
      with k z show "z = 0" by simp
    qed
    finally show ?thesis .
  qed
qed

lemma take_bit_conv:
  assumes "0 < bits C"
  shows "take_bit (bits C) (conv C z) = take_bit (bits C) z"
proof (cases "is_signed C")
  case True
  have "take_bit (bits C) (signed_take_bit (bits C - 1) z) = take_bit (bits C) z"
    using assms by (intro take_bit_signed_take_bit) simp
  then show ?thesis using True by (simp add: conv_def)
next
  case False
  then show ?thesis by (simp add: conv_def)
qed

lemma take_bit_sub_in:
  assumes "0 < bits C"
  shows "take_bit (bits C) (sub_in C a b) = take_bit (bits C) (a - b)"
proof -
  have "take_bit (bits C) (sub_in C a b) = take_bit (bits C) (conv C a - conv C b)"
    unfolding sub_in_def using assms by (rule take_bit_conv)
  also have "\<dots> = take_bit (bits C) (take_bit (bits C) (conv C a) - take_bit (bits C) (conv C b))"
    by (simp only: take_bit_diff)
  also have "\<dots> = take_bit (bits C) (take_bit (bits C) a - take_bit (bits C) b)"
    using assms by (simp only: take_bit_conv)
  also have "\<dots> = take_bit (bits C) (a - b)"
    by (simp only: take_bit_diff)
  finally show ?thesis .
qed

lemma is_power_of_2_take_bit:
  assumes "0 < bits (common T)"
  shows "is_power_of_2 T x \<longleftrightarrow>
    take_bit (bits (common T)) x AND take_bit (bits (common T)) (x - 1) = 0"
proof -
  let ?C = "common T"
  have "and_in ?C x (sub_in ?C x 1) = conv ?C (x AND sub_in ?C x 1)"
    by (simp add: and_in_def conv_and)
  also have "\<dots> = 0 \<longleftrightarrow> take_bit (bits ?C) (x AND sub_in ?C x 1) = 0"
    using assms by (rule conv_eq_0_iff)
  also have "take_bit (bits ?C) (x AND sub_in ?C x 1) =
      take_bit (bits ?C) x AND take_bit (bits ?C) (sub_in ?C x 1)"
    by (rule take_bit_and)
  also have "take_bit (bits ?C) (sub_in ?C x 1) = take_bit (bits ?C) (x - 1)"
    using assms by (rule take_bit_sub_in)
  finally show ?thesis
    by (auto simp: is_power_of_2_def)
qed

lemma and_pred_take_bit:
  fixes x :: int
  shows "take_bit n x AND take_bit n (x - 1) = 0 \<longleftrightarrow>
    take_bit n x = 0 \<or> (\<exists>k. take_bit n x = 2 ^ k)"
proof (cases "take_bit n x = 0")
  case True
  then show ?thesis by simp
next
  case False
  define y where "y = take_bit n x"
  have "0 \<le> y" by (simp add: y_def)
  moreover have "y \<noteq> 0" using False by (simp add: y_def)
  ultimately have ypos: "0 < y" by simp
  have yless: "y < 2 ^ n" by (simp add: y_def)
  have "take_bit n (x - 1) = take_bit n (take_bit n x - take_bit n 1)"
    by (simp only: take_bit_diff)
  also have "\<dots> = take_bit n (y - take_bit n 1)"
    by (simp only: y_def)
  also have "\<dots> = take_bit n (y - 1)"
    by (metis take_bit_diff take_bit_take_bit min.idem)
  also have "\<dots> = y - 1"
    using ypos yless by (simp add: take_bit_int_eq_self_iff)
  finally have "take_bit n x AND take_bit n (x - 1) = y AND (y - 1)"
    by (simp add: y_def)
  then show ?thesis
    using False and_pred_eq_0_iff [OF ypos] by (simp add: y_def)
qed

lemma one_set_bit_take_bit:
  "one_set_bit C x \<longleftrightarrow> (\<exists>k<bits C. take_bit (bits C) x = 2 ^ k)"
proof -
  have "take_bit (bits C) x = 2 ^ k \<longleftrightarrow> (\<forall>n<bits C. bit x n = (n = k))"
    if k: "k < bits C" for k
  proof
    assume e: "take_bit (bits C) x = 2 ^ k"
    show "\<forall>n<bits C. bit x n = (n = k)"
    proof (intro allI impI)
      fix n assume "n < bits C"
      then have "bit x n = bit (take_bit (bits C) x) n"
        by (simp add: bit_take_bit_iff)
      also have "\<dots> = (n = k)"
        by (simp add: e bit_exp_iff)
      finally show "bit x n = (n = k)" .
    qed
  next
    assume a: "\<forall>n<bits C. bit x n = (n = k)"
    show "take_bit (bits C) x = 2 ^ k"
    proof (rule bit_eqI)
      fix n
      show "bit (take_bit (bits C) x) n = bit (2 ^ k :: int) n"
        using a k by (auto simp: bit_take_bit_iff bit_exp_iff)
    qed
  qed
  then show ?thesis
    by (auto simp: one_set_bit_def)
qed

lemma one_set_bit_take_bit':
  "one_set_bit C x \<longleftrightarrow> (\<exists>k. take_bit (bits C) x = 2 ^ k)"
proof -
  have "k < bits C" if "take_bit (bits C) x = 2 ^ k" for k
  proof -
    have "take_bit (bits C) x < 2 ^ bits C" by simp
    with that have "(2::int) ^ k < 2 ^ bits C" by simp
    then show ?thesis by simp
  qed
  then show ?thesis
    unfolding one_set_bit_take_bit by blast
qed

lemma in_range_common:
  assumes "8 \<le> bits T" and "in_range T x"
  shows "in_range (common T) x"
proof (cases "bits T < 32")
  case False
  then show ?thesis using assms(2) by (simp add: common_def)
next
  case True
  have "(2::int) ^ (bits T - 1) \<le> 2 ^ 31"
    using True by (intro power_increasing) simp_all
  moreover have "(2::int) ^ bits T \<le> 2 ^ 31"
    using True by (intro power_increasing) simp_all
  ultimately have p: "(2::int) ^ (bits T - 1) \<le> 2147483648" "(2::int) ^ bits T \<le> 2147483648"
    by simp_all
  have "- 2147483648 \<le> x \<and> x < 2147483648"
    using assms(2) p by (auto simp: in_range_def split: if_splits)
  then show ?thesis
    using True by (simp add: common_def in_range_def int_type_def)
qed

lemma in_range_zero_iff:
  assumes "0 < bits C" and "in_range C x"
  shows "take_bit (bits C) x = 0 \<longleftrightarrow> x = 0"
proof -
  have "conv C x = x" using assms(2) by (rule conv_id)
  then show ?thesis
    using conv_eq_0_iff [OF assms(1), of x] by simp
qed

lemma nonneg_take_bit_self:
  assumes "in_range T x" and "0 \<le> x"
  shows "take_bit (bits T) x = x"
proof -
  have p: "(2::int) ^ (bits T - 1) \<le> 2 ^ bits T"
    by (rule power_increasing) simp_all
  have "x < 2 ^ bits T"
  proof (cases "is_signed T")
    case True
    with assms(1) have "x < 2 ^ (bits T - 1)" by (simp add: in_range_def)
    with p show ?thesis by linarith
  next
    case False
    with assms(1) show ?thesis by (simp add: in_range_def)
  qed
  with assms(2) show ?thesis
    by (simp add: take_bit_int_eq_self_iff)
qed

lemma one_set_bit_common:
  assumes "8 \<le> bits T" and "in_range T x" and "0 \<le> x"
  shows "one_set_bit (common T) x \<longleftrightarrow> one_set_bit T x"
proof -
  have "take_bit (bits T) x = x"
    using assms(2,3) by (rule nonneg_take_bit_self)
  moreover have "take_bit (bits (common T)) x = x"
    using in_range_common [OF assms(1,2)] assms(3) by (rule nonneg_take_bit_self)
  ultimately show ?thesis
    by (simp add: one_set_bit_take_bit')
qed

text \<open>
  The test on every value of every type, with the subtraction wrapping around where
  it overflows.
\<close>

lemma is_power_of_2_wrapping:
  assumes "8 \<le> bits T" and "in_range T x"
  shows "(is_power_of_2 T x \<longleftrightarrow> one_set_bit (common T) x \<or> x = 0) \<and>
    (0 \<le> x \<longrightarrow> (is_power_of_2 T x \<longleftrightarrow> one_set_bit T x \<or> x = 0)) \<and>
    is_power_of_2 T 0"
proof -
  have w: "0 < bits (common T)"
    using bits_common [OF assms(1)] by simp
  have r: "in_range (common T) x"
    using assms by (rule in_range_common)
  have "is_power_of_2 T x \<longleftrightarrow>
      take_bit (bits (common T)) x = 0 \<or> (\<exists>k. take_bit (bits (common T)) x = 2 ^ k)"
    by (simp only: is_power_of_2_take_bit [OF w] and_pred_take_bit)
  then have a: "is_power_of_2 T x \<longleftrightarrow> x = 0 \<or> one_set_bit (common T) x"
    by (simp only: in_range_zero_iff [OF w r] one_set_bit_take_bit')
  have b: "is_power_of_2 T x \<longleftrightarrow> x = 0 \<or> one_set_bit T x" if "0 \<le> x"
    using a one_set_bit_common [OF assms that] by simp
  have c: "is_power_of_2 T 0"
    by (simp add: is_power_of_2_take_bit [OF w])
  from a b c show ?thesis by blast
qed

lemma one_set_bit_minimum: "0 < bits T \<Longrightarrow> one_set_bit T (- (2 ^ (bits T - 1)))"
proof -
  assume w: "0 < bits T"
  have "take_bit (bits T) (- (2 ^ (bits T - 1)) :: int) = 2 ^ (bits T - 1)"
  proof (rule bit_eqI)
    fix n
    show "bit (take_bit (bits T) (- (2 ^ (bits T - 1)) :: int)) n = bit (2 ^ (bits T - 1) :: int) n"
      using w by (auto simp: bit_take_bit_iff bit_minus_exp_iff bit_exp_iff)
  qed
  then show ?thesis
    unfolding one_set_bit_take_bit' by blast
qed

text \<open>
  C4, as the code has it. For every integer \<open>x\<close> for which \<open>x - 1\<close> does not overflow,
  \<^verbatim>\<open>is_power_of_2(x)\<close> is true if and only if \<open>x\<close> has exactly one set bit or \<open>x\<close> is 0,
  the bits being those of the operand of \<^verbatim>\<open>&\<close>: of \<open>x\<close> at the width at which the
  expression is evaluated, which is the width of \<^verbatim>\<open>int\<close> for a narrower type. For
  \<open>x \<ge> 0\<close> they are the bits of \<open>x\<close> in its own type. In particular the test is true
  on 0.
\<close>

theorem is_power_of_2_promoted:
  assumes "8 \<le> bits T" and "in_range T x"
    and "is_signed (common T) \<longrightarrow> in_range (common T) (x - 1)"
  shows "(is_power_of_2 T x \<longleftrightarrow> one_set_bit (common T) x \<or> x = 0) \<and>
    (0 \<le> x \<longrightarrow> (is_power_of_2 T x \<longleftrightarrow> one_set_bit T x \<or> x = 0)) \<and>
    is_power_of_2 T 0"
  using assms(1,2) by (rule is_power_of_2_wrapping)

theorem is_power_of_2_promoted_witness:
  "8 \<le> bits unsigned_char \<and> in_range unsigned_char 8 \<and>
   in_range (common unsigned_char) (8 - 1) \<and> (0 :: int) \<le> 8 \<and>
   is_power_of_2 unsigned_char 8 = (one_set_bit (common unsigned_char) 8 \<or> (8 :: int) = 0) \<and>
   is_power_of_2 unsigned_char 8 = (one_set_bit unsigned_char 8 \<or> (8 :: int) = 0) \<and>
   is_power_of_2 unsigned_char 0 \<and> is_power_of_2 unsigned_char 8"
proof -
  have h: "8 \<le> bits unsigned_char" "in_range unsigned_char 8"
    by (simp_all add: unsigned_char_def in_range_def)
  have o: "in_range (common unsigned_char) (8 - 1)"
    by (simp add: common_def unsigned_char_def int_type_def in_range_def)
  then have o': "is_signed (common unsigned_char) \<longrightarrow> in_range (common unsigned_char) (8 - 1)"
    by simp
  have n: "(0 :: int) \<le> 8" by simp
  have "is_power_of_2 unsigned_char 8" by code_simp
  then show ?thesis
    using h o n is_power_of_2_promoted [OF h o'] by blast
qed

text \<open>
  The \<^verbatim>\<open>signed char\<close> \<open>-128\<close> has exactly one set bit in its type, the sign bit, and is
  not 0, but the test is false on it: promoted to \<^verbatim>\<open>int\<close> it has 25 set bits. The same
  holds of the \<^verbatim>\<open>short\<close> \<open>-32768\<close>.
\<close>

theorem is_power_of_2_narrow_minimum_counterexample:
  "in_range signed_char (- 128) \<and> one_set_bit signed_char (- 128) \<and> (- 128 :: int) \<noteq> 0 \<and>
   \<not> is_power_of_2 signed_char (- 128) \<and>
   in_range short_int (- 32768) \<and> one_set_bit short_int (- 32768) \<and>
   \<not> is_power_of_2 short_int (- 32768)"
proof -
  have "one_set_bit signed_char (- (2 ^ (bits signed_char - 1)))"
    by (rule one_set_bit_minimum) (simp add: signed_char_def)
  then have a: "one_set_bit signed_char (- 128)"
    by (simp add: signed_char_def)
  have "one_set_bit short_int (- (2 ^ (bits short_int - 1)))"
    by (rule one_set_bit_minimum) (simp add: short_int_def)
  then have b: "one_set_bit short_int (- 32768)"
    by (simp add: short_int_def)
  have c: "\<not> is_power_of_2 signed_char (- 128)" by code_simp
  have d: "\<not> is_power_of_2 short_int (- 32768)" by code_simp
  from a b c d show ?thesis
    by (simp add: in_range_def signed_char_def short_int_def)
qed

section \<open>The scan of \<open>clz\<close> on types of at most 32 bits\<close>

lemma conv_int_small: "0 \<le> k \<Longrightarrow> k \<le> 128 \<Longrightarrow> conv int_type k = k"
  by (simp add: conv_id in_range_def int_type_def)

lemma digits_le_bits: "digits T \<le> bits T"
  by (auto simp: digits_def)

lemma less_bits_le_digits: "i < bits T \<Longrightarrow> i \<le> digits T"
  by (auto simp: digits_def)

lemma clz_loop_hit:
  assumes "0 \<le> i" and "and_in (common T) (shl_int ovf (nat i)) x \<noteq> 0"
  shows "clz_loop ovf T x i = conv T (sub_in (common T) (conv T (int (digits T))) i)"
  using assms by (subst clz_loop.simps) simp

lemma clz_loop_miss:
  assumes "0 \<le> i" and "and_in (common T) (shl_int ovf (nat i)) x = 0"
  shows "clz_loop ovf T x i = clz_loop ovf T x (i - 1)"
  using assms by (subst clz_loop.simps) simp

lemma clz_loop_run:
  assumes "i \<le> n" and "0 \<le> i"
    and "\<And>j. i < j \<Longrightarrow> j \<le> n \<Longrightarrow> and_in (common T) (shl_int ovf (nat j)) x = 0"
  shows "clz_loop ovf T x n = clz_loop ovf T x i"
  using assms(1,3)
proof (induction n rule: int_ge_induct)
  case base
  show ?case ..
next
  case (step n)
  have "clz_loop ovf T x (n + 1) = clz_loop ovf T x (n + 1 - 1)"
  proof (rule clz_loop_miss)
    show "0 \<le> n + 1" using step.hyps assms(2) by simp
    show "and_in (common T) (shl_int ovf (nat (n + 1))) x = 0"
      using step.hyps by (intro step.prems) simp_all
  qed
  also have "\<dots> = clz_loop ovf T x i"
    using step.prems by (simp add: step.IH)
  finally show ?case .
qed

lemma returned_count:
  assumes "8 \<le> bits T" and "0 \<le> i" and "i \<le> int (digits T)"
  shows "conv T (sub_in (common T) (conv T (int (digits T))) i) = int (digits T) - i"
proof -
  have d: "conv T (int (digits T)) = int (digits T)"
    using assms(1) by (rule conv_count) simp_all
  have c: "conv (common T) (int (digits T)) = int (digits T)"
    using assms(1) by (rule conv_common_count) simp_all
  have ci: "conv (common T) i = i"
    using assms by (intro conv_common_count) simp_all
  have s: "conv (common T) (int (digits T) - i) = int (digits T) - i"
    using assms by (intro conv_common_count) simp_all
  have t: "conv T (int (digits T) - i) = int (digits T) - i"
    using assms by (intro conv_count) simp_all
  show ?thesis
    unfolding sub_in_def d c ci s t ..
qed

lemma start_value:
  assumes "8 \<le> bits T" and "bits T \<le> 128"
  shows "conv int_type (conv T (int (digits T))) = int (digits T)"
proof -
  have "conv T (int (digits T)) = int (digits T)"
    using assms(1) by (rule conv_count) simp_all
  moreover have "int (digits T) \<le> 128"
    using assms(2) digits_le_bits [of T] by simp
  ultimately show ?thesis
    by (simp add: conv_int_small)
qed

lemma test_bit:
  assumes "bits (common T) = 32" and "j \<le> 31"
  shows "and_in (common T) (shl_int ovf j) x \<noteq> 0 \<longleftrightarrow> bit x j"
proof (cases "j < 31")
  case True
  then show ?thesis using assms(1) by (intro test_low) simp_all
next
  case False
  then have j: "j = 31" using assms(2) by simp
  have "and_in (common T) (shl_int ovf 31) x \<noteq> 0 \<longleftrightarrow>
      (\<exists>n. 31 \<le> n \<and> n < bits (common T) \<and> bit x n)"
    using assms(1) by (intro test_31) simp
  also have "\<dots> \<longleftrightarrow> bit x 31"
  proof
    assume "\<exists>n. 31 \<le> n \<and> n < bits (common T) \<and> bit x n"
    then obtain n where "31 \<le> n" "n < 32" "bit x n" using assms(1) by auto
    moreover from this have "n = 31" by simp
    ultimately show "bit x 31" by simp
  next
    assume "bit x 31"
    then show "\<exists>n. 31 \<le> n \<and> n < bits (common T) \<and> bit x n"
      using assms(1) by auto
  qed
  finally show ?thesis by (simp add: j)
qed

lemma unsigned_no_high_bit:
  assumes "\<not> is_signed T" and "in_range T x" and "bits T \<le> n"
  shows "\<not> bit x n"
proof -
  have "take_bit (bits T) x = x"
    using assms(1,2) by (simp add: in_range_def take_bit_int_eq_self_iff)
  then have "bit x n = bit (take_bit (bits T) x) n" by simp
  then show ?thesis using assms(3) by (simp add: bit_take_bit_iff)
qed

lemma clz_highest_set_bit:
  assumes "8 \<le> bits T" and "bits T \<le> 32" and "in_range T x"
    and "highest_set_bit T x i" and "digits T < 32 \<or> shl_int ovf 32 = 0"
  shows "clz ovf T x = int (digits T) - int i"
proof -
  have c32: "bits (common T) = 32"
    using assms(2) by (rule bits_common_narrow)
  from assms(4) have i: "i < bits T" and bi: "bit x i"
    and above: "\<And>n. i < n \<Longrightarrow> n < bits T \<Longrightarrow> \<not> bit x n"
    by (auto simp: highest_set_bit_def)
  have id: "i \<le> digits T"
    using i by (rule less_bits_le_digits)
  have i31: "i \<le> 31" using i assms(2) by simp
  have miss: "and_in (common T) (shl_int ovf (nat j)) x = 0"
    if "int i < j" and "j \<le> int (digits T)" for j
  proof (cases "nat j \<le> 31")
    case True
    have "\<not> bit x (nat j)"
    proof (cases "nat j < bits T")
      case True
      with that show ?thesis by (intro above) simp_all
    next
      case False
      with that have u: "\<not> is_signed T" by (auto simp: digits_def split: if_splits)
      from False have "bits T \<le> nat j" by simp
      with u assms(3) show ?thesis by (rule unsigned_no_high_bit)
    qed
    then show ?thesis
      using test_bit [OF c32 True, of ovf x] by simp
  next
    case False
    with that assms(2) have "nat j = 32" "digits T = 32"
      by (auto simp: digits_def split: if_splits)
    with assms(5) have "shl_int ovf (nat j) = 0" by simp
    then show ?thesis by (rule test_zero_mask)
  qed
  have hit: "and_in (common T) (shl_int ovf (nat (int i))) x \<noteq> 0"
    using test_bit [OF c32 i31, of ovf x] bi by simp
  have "clz ovf T x = clz_loop ovf T x (int (digits T))"
    using assms(1,2) by (simp add: clz_def start_value)
  also have "\<dots> = clz_loop ovf T x (int i)"
    using id miss by (intro clz_loop_run) simp_all
  also have "\<dots> = conv T (sub_in (common T) (conv T (int (digits T))) (int i))"
    using hit by (intro clz_loop_hit) simp_all
  also have "\<dots> = int (digits T) - int i"
    using assms(1) id by (intro returned_count) simp_all
  finally show ?thesis .
qed

lemma highest_set_bit_bounds:
  assumes "\<not> is_signed T" and "in_range T x" and "highest_set_bit T x i"
  shows "2 ^ i \<le> x" and "x < 2 ^ (i + 1)"
proof -
  from assms(3) have i: "i < bits T" and bi: "bit x i"
    and above: "\<And>n. i < n \<Longrightarrow> n < bits T \<Longrightarrow> \<not> bit x n"
    by (auto simp: highest_set_bit_def)
  have none: "\<not> bit x n" if "i < n" for n
  proof (cases "n < bits T")
    case True
    with that show ?thesis by (rule above)
  next
    case False
    then have "bits T \<le> n" by simp
    with assms(1,2) show ?thesis by (rule unsigned_no_high_bit)
  qed
  have e: "take_bit (Suc i) x = x"
  proof (rule bit_eqI)
    fix n
    have "n < Suc i" if "bit x n"
      using that none [of n] by (cases "i < n") simp_all
    then show "bit (take_bit (Suc i) x) n = bit x n"
      by (auto simp: bit_take_bit_iff)
  qed
  have "take_bit (Suc i) x < 2 ^ Suc i" by (rule take_bit_int_less_exp)
  then show "x < 2 ^ (i + 1)" by (simp add: e)
  have "take_bit (Suc i) x = 2 ^ i * of_bool (bit x i) + take_bit i x"
    by (rule take_bit_Suc_from_most)
  then have "x = 2 ^ i + take_bit i x" using bi by (simp add: e)
  moreover have "0 \<le> take_bit i x" by simp
  ultimately show "2 ^ i \<le> x" by linarith
qed

text \<open>
  C1, as the code has it. For every integer type of at most 32 bits and every \<open>x\<close> of the
  type whose highest set bit is at position \<open>i\<close>, \<^verbatim>\<open>clz(x)\<close> returns \<open>digits - i\<close>; for an
  unsigned \<open>x\<close>, equivalently, \<open>2 ^ (digits - clz(x)) \<le> x < 2 ^ (digits - clz(x) + 1)\<close>.
  For \<^verbatim>\<open>unsigned int\<close> the first iteration evaluates \<^verbatim>\<open>1 << 32\<close>, which is taken to
  yield 0.
\<close>

theorem clz_counts_from_digits:
  assumes "8 \<le> bits T" and "bits T \<le> 32" and "in_range T x"
    and "highest_set_bit T x i" and "digits T < 32 \<or> shl_int ovf 32 = 0"
  shows "clz ovf T x = int (digits T) - int i \<and>
    (\<not> is_signed T \<longrightarrow>
       2 ^ (digits T - nat (clz ovf T x)) \<le> x \<and> x < 2 ^ (digits T - nat (clz ovf T x) + 1))"
proof -
  have c: "clz ovf T x = int (digits T) - int i"
    using assms by (rule clz_highest_set_bit)
  from assms(4) have "i < bits T" by (simp add: highest_set_bit_def)
  then have "i \<le> digits T" by (rule less_bits_le_digits)
  then have e: "digits T - nat (clz ovf T x) = i" by (simp add: c)
  have "2 ^ i \<le> x \<and> x < 2 ^ (i + 1)" if "\<not> is_signed T"
    using highest_set_bit_bounds [OF that assms(3,4)] by simp
  then show ?thesis
    unfolding e using c by simp
qed

theorem clz_counts_from_digits_witness:
  "8 \<le> bits unsigned_int \<and> bits unsigned_int \<le> 32 \<and> in_range unsigned_int 1 \<and>
   highest_set_bit unsigned_int 1 0 \<and> shl_int shl_saturating 32 = 0 \<and>
   clz shl_saturating unsigned_int 1 = int (digits unsigned_int) - int 0 \<and>
   \<not> is_signed unsigned_int \<and>
   2 ^ (digits unsigned_int - nat (clz shl_saturating unsigned_int 1)) \<le> (1 :: int) \<and>
   (1 :: int) < 2 ^ (digits unsigned_int - nat (clz shl_saturating unsigned_int 1) + 1)"
proof -
  have h: "8 \<le> bits unsigned_int" "bits unsigned_int \<le> 32" "in_range unsigned_int 1"
    by (simp_all add: unsigned_int_def in_range_def)
  have b: "highest_set_bit unsigned_int 1 0"
    by (auto simp: highest_set_bit_def unsigned_int_def bit_1_iff)
  have z: "shl_int shl_saturating 32 = 0"
    by (simp add: shl_int_saturating)
  have u: "\<not> is_signed unsigned_int" by (simp add: unsigned_int_def)
  from z have o: "digits unsigned_int < 32 \<or> shl_int shl_saturating 32 = 0" ..
  show ?thesis
    using h b z u clz_counts_from_digits [OF h b o] by blast
qed

text \<open>
  The count \<open>digits - i - 1\<close> and the bounds \<open>2 ^ (W - clz(x) - 1) \<le> x < 2 ^ (W - clz(x))\<close>
  fail on the \<^verbatim>\<open>unsigned char\<close> 1, where the scan returns 8.
\<close>

theorem clz_claimed_count_counterexample:
  "in_range unsigned_char 1 \<and> highest_set_bit unsigned_char 1 0 \<and>
   clz shl_saturating unsigned_char 1 = 8 \<and>
   int (digits unsigned_char) - int 0 - 1 = 7 \<and>
   \<not> (2 ^ (bits unsigned_char - nat (clz shl_saturating unsigned_char 1) - 1) \<le> (1 :: int) \<and>
      (1 :: int) < 2 ^ (bits unsigned_char - nat (clz shl_saturating unsigned_char 1)))"
proof -
  have c: "clz shl_saturating unsigned_char 1 = 8" by code_simp
  have "highest_set_bit unsigned_char 1 0"
    by (auto simp: highest_set_bit_def unsigned_char_def bit_1_iff)
  then show ?thesis
    unfolding c by (simp add: unsigned_char_def in_range_def digits_def)
qed

section \<open>The scan of \<open>clz\<close> on types wider than \<^verbatim>\<open>int\<close>\<close>

lemma clz_loop_first_hit:
  assumes "31 \<le> n" and "and_in (common T) (shl_int ovf 31) x \<noteq> 0"
  shows "\<exists>j. 31 \<le> j \<and> j \<le> n \<and>
    clz_loop ovf T x n = conv T (sub_in (common T) (conv T (int (digits T))) j)"
  using assms(1)
proof (induction n rule: int_ge_induct)
  case base
  have "clz_loop ovf T x 31 = conv T (sub_in (common T) (conv T (int (digits T))) 31)"
    using assms(2) by (intro clz_loop_hit) simp_all
  then show ?case by auto
next
  case (step n)
  show ?case
  proof (cases "and_in (common T) (shl_int ovf (nat (n + 1))) x = 0")
    case True
    have "clz_loop ovf T x (n + 1) = clz_loop ovf T x (n + 1 - 1)"
      using step.hyps True by (intro clz_loop_miss) simp_all
    then have "clz_loop ovf T x (n + 1) = clz_loop ovf T x n" by simp
    with step.IH obtain j where "31 \<le> j" "j \<le> n"
      "clz_loop ovf T x (n + 1) = conv T (sub_in (common T) (conv T (int (digits T))) j)"
      by auto
    then show ?thesis
      by (intro exI [of _ j]) simp
  next
    case False
    have "clz_loop ovf T x (n + 1) =
        conv T (sub_in (common T) (conv T (int (digits T))) (n + 1))"
      using step.hyps False by (intro clz_loop_hit) simp_all
    with step.hyps show ?thesis
      by (intro exI [of _ "n + 1"]) simp
  qed
qed

lemma high_bits_hit:
  assumes "32 < bits T" and "in_range T x" and "x \<noteq> 0" and "take_bit 32 x = 0"
  shows "and_in (common T) (shl_int ovf 31) x \<noteq> 0"
proof -
  have w: "0 < bits T" using assms(1) by simp
  have "take_bit (bits T) x \<noteq> 0"
    using in_range_zero_iff [OF w assms(2)] assms(3) by simp
  then obtain n where n: "n < bits T" "bit x n"
    by (auto simp: take_bit_eq_0_bits)
  have "\<not> bit x k" if "k < 32" for k
    using assms(4) that by (simp add: take_bit_eq_0_bits)
  with n(2) have "31 \<le> n" by (cases "n < 32") auto
  with n have "\<exists>n. 31 \<le> n \<and> n < bits (common T) \<and> bit x n"
    using assms(1) by (auto simp: bits_common_wide)
  moreover have "32 \<le> bits (common T)"
    using assms(1) by (simp add: bits_common_wide)
  ultimately show ?thesis
    by (simp add: test_31)
qed

lemma wide_digits: "32 < bits T \<Longrightarrow> 32 \<le> digits T"
  by (auto simp: digits_def)

lemma clz_wide_bounds:
  assumes "32 < bits T" and "bits T \<le> 128" and "in_range T x" and "x \<noteq> 0"
    and "take_bit 32 x = 0"
  shows "0 \<le> clz ovf T x" and "clz ovf T x \<le> int (digits T) - 31"
proof -
  have t8: "8 \<le> bits T" using assms(1) by simp
  have hit: "and_in (common T) (shl_int ovf 31) x \<noteq> 0"
    using assms(1,3,4,5) by (rule high_bits_hit)
  have d: "31 \<le> int (digits T)"
    using wide_digits [OF assms(1)] by simp
  have "clz ovf T x = clz_loop ovf T x (int (digits T))"
    using t8 assms(2) by (simp add: clz_def start_value)
  with clz_loop_first_hit [OF d hit] obtain j where j: "31 \<le> j" "j \<le> int (digits T)"
    and "clz ovf T x = conv T (sub_in (common T) (conv T (int (digits T))) j)"
    by auto
  moreover have "conv T (sub_in (common T) (conv T (int (digits T))) j) = int (digits T) - j"
    using t8 j by (intro returned_count) simp_all
  ultimately have "clz ovf T x = int (digits T) - j" by simp
  with j show "0 \<le> clz ovf T x" and "clz ovf T x \<le> int (digits T) - 31"
    by simp_all
qed

lemma clz_wide_zero_shift:
  assumes "32 < bits T" and "bits T \<le> 128" and "in_range T x" and "x \<noteq> 0"
    and "take_bit 32 x = 0" and "\<And>j. 31 < j \<Longrightarrow> shl_int ovf j = 0"
  shows "clz ovf T x = int (digits T) - 31"
proof -
  have t8: "8 \<le> bits T" using assms(1) by simp
  have hit: "and_in (common T) (shl_int ovf (nat 31)) x \<noteq> 0"
    using high_bits_hit [OF assms(1,3,4,5)] by simp
  have d: "31 \<le> int (digits T)"
    using wide_digits [OF assms(1)] by simp
  have miss: "and_in (common T) (shl_int ovf (nat j)) x = 0" if "31 < j" for j
  proof -
    from that have "31 < nat j" by simp
    then have "shl_int ovf (nat j) = 0" by (rule assms(6))
    then show ?thesis by (rule test_zero_mask)
  qed
  have "clz ovf T x = clz_loop ovf T x (int (digits T))"
    using t8 assms(2) by (simp add: clz_def start_value)
  also have "\<dots> = clz_loop ovf T x 31"
    using d miss by (intro clz_loop_run) simp_all
  also have "\<dots> = conv T (sub_in (common T) (conv T (int (digits T))) 31)"
    using hit by (intro clz_loop_hit) simp_all
  also have "\<dots> = int (digits T) - 31"
    using t8 d by (intro returned_count) simp_all
  finally show ?thesis .
qed

lemma highest_set_bit_power: "k < bits T \<Longrightarrow> highest_set_bit T (2 ^ k) k"
  by (auto simp: highest_set_bit_def bit_exp_iff)

text \<open>
  C10, as the code has it. \<^verbatim>\<open>clz\<close> tests each candidate bit with the \<^verbatim>\<open>int\<close> expression
  \<^verbatim>\<open>1 << i\<close>. For every integer type wider than \<^verbatim>\<open>int\<close> and every nonzero \<open>x\<close> whose set
  bits all lie at positions 32 and above, the scan does find a set bit, at \<open>i = 31\<close> at
  the latest: \<^verbatim>\<open>1 << 31\<close> is negative, and converted to the wider type it has every bit
  from position 31 upwards. So \<^verbatim>\<open>clz(x)\<close> lies between 0 and \<open>digits - 31\<close> whatever the
  shifts by 32 and more yield, and is \<open>digits - 31\<close> where they yield 0; the highest set
  bit of \<open>x\<close> is at position 32 or above, so this is not the count of its leading zeros.
\<close>

theorem clz_wide_type:
  assumes "32 < bits T" and "bits T \<le> 128" and "in_range T x" and "x \<noteq> 0"
    and "take_bit 32 x = 0"
  shows "0 \<le> clz ovf T x \<and> clz ovf T x \<le> int (digits T) - 31 \<and>
    clz shl_saturating T x = int (digits T) - 31 \<and>
    (\<forall>i. highest_set_bit T x i \<longrightarrow> 32 \<le> i)"
proof -
  have "32 \<le> i" if "highest_set_bit T x i" for i
  proof -
    from that have "bit x i" by (simp add: highest_set_bit_def)
    moreover have "\<not> bit x k" if "k < 32" for k
      using assms(5) that by (simp add: take_bit_eq_0_bits)
    ultimately show ?thesis by (cases "i < 32") auto
  qed
  moreover have "clz shl_saturating T x = int (digits T) - 31"
    using assms shl_int_saturating by (rule clz_wide_zero_shift)
  ultimately show ?thesis
    using clz_wide_bounds [OF assms] by blast
qed

theorem clz_wide_type_witness:
  "32 < bits long_long \<and> bits long_long \<le> 128 \<and> in_range long_long (2 ^ 40) \<and>
   (2 ^ 40 :: int) \<noteq> 0 \<and> take_bit 32 (2 ^ 40 :: int) = 0 \<and>
   0 \<le> clz shl_masked long_long (2 ^ 40) \<and>
   clz shl_masked long_long (2 ^ 40) \<le> int (digits long_long) - 31 \<and>
   clz shl_saturating long_long (2 ^ 40) = int (digits long_long) - 31 \<and>
   highest_set_bit long_long (2 ^ 40) 40 \<and> (32 :: nat) \<le> 40"
proof -
  have h: "32 < bits long_long" "bits long_long \<le> 128" "in_range long_long (2 ^ 40)"
    "(2 ^ 40 :: int) \<noteq> 0" "take_bit 32 (2 ^ 40 :: int) = 0"
    by (simp_all add: long_long_def in_range_def)
  have b: "highest_set_bit long_long (2 ^ 40) 40"
    by (rule highest_set_bit_power) (simp add: long_long_def)
  show ?thesis
    using h b clz_wide_type [OF h, of shl_masked] by simp
qed

text \<open>
  The scan of the 64-bit value \<open>2 ^ 40\<close> does not return the value \<open>digits + 1\<close> that it
  returns on 0.
\<close>

theorem clz_wide_sentinel_counterexample:
  "32 < bits long_long \<and> in_range long_long (2 ^ 40) \<and> (2 ^ 40 :: int) \<noteq> 0 \<and>
   take_bit 32 (2 ^ 40 :: int) = 0 \<and>
   clz shl_saturating long_long (2 ^ 40) = 32 \<and>
   clz shl_masked long_long (2 ^ 40) = 0 \<and>
   int (digits long_long) + 1 = 64"
proof -
  have "clz shl_saturating long_long (2 ^ 40) = 32" by code_simp
  moreover have "clz shl_masked long_long (2 ^ 40) = 0" by code_simp
  ultimately show ?thesis
    by (simp add: long_long_def in_range_def digits_def)
qed

section \<open>The rounded logarithm\<close>

lemma unsigned_highest_set_bit:
  assumes "\<not> is_signed T" and "in_range T x" and "2 ^ i \<le> x" and "x < 2 ^ (i + 1)"
  shows "highest_set_bit T x i"
proof -
  have x0: "0 \<le> x"
    using assms(1,2) by (simp add: in_range_def)
  have "x < 2 ^ bits T"
    using assms(1,2) by (simp add: in_range_def)
  with assms(3) have "(2::int) ^ i < 2 ^ bits T" by linarith
  then have i: "i < bits T" by simp
  have e: "take_bit (Suc i) x = x"
    using x0 assms(4) by (simp add: take_bit_int_eq_self_iff)
  have "take_bit (Suc i) x = 2 ^ i * of_bool (bit x i) + take_bit i x"
    by (rule take_bit_Suc_from_most)
  then have s: "x = 2 ^ i * of_bool (bit x i) + take_bit i x"
    by (simp only: e)
  have bi: "bit x i"
  proof (rule ccontr)
    assume "\<not> bit x i"
    with s have "x = take_bit i x" by simp
    moreover have "take_bit i x < 2 ^ i" by (rule take_bit_int_less_exp)
    ultimately show False using assms(3) by linarith
  qed
  have "\<not> bit x n" if "i < n" for n
  proof -
    have "bit x n = bit (take_bit (Suc i) x) n" by (simp only: e)
    then show ?thesis using that by (simp add: bit_take_bit_iff)
  qed
  with i bi show ?thesis
    by (simp add: highest_set_bit_def)
qed

lemma log2_highest_set_bit:
  assumes "8 \<le> bits T" and "bits T \<le> 32" and "in_range T x"
    and "highest_set_bit T x i" and "digits T < 32 \<or> shl_int ovf 32 = 0"
  shows "log2 ovf T x = int i"
proof -
  have c: "clz ovf T x = int (digits T) - int i"
    using assms by (rule clz_highest_set_bit)
  from assms(4) have "i < bits T" by (simp add: highest_set_bit_def)
  then have id: "i \<le> digits T" by (rule less_bits_le_digits)
  have d: "conv (common T) (int (digits T)) = int (digits T)"
    using assms(1) by (rule conv_common_count) simp_all
  have k: "conv (common T) (int (digits T) - int i) = int (digits T) - int i"
    using assms(1) id by (intro conv_common_count) simp_all
  have ci: "conv (common T) (int i) = int i"
    using assms(1) id by (intro conv_common_count) simp_all
  have ti: "conv T (int i) = int i"
    using assms(1) id by (intro conv_count) simp_all
  have "sub_in (common T) (int (digits T)) (int (digits T) - int i) = int i"
    unfolding sub_in_def d k by (simp add: ci)
  then show ?thesis
    by (simp add: log2_def c ti)
qed

lemma is_power_of_2_positive:
  assumes "8 \<le> bits T" and "in_range T x" and "0 < x"
  shows "is_power_of_2 T x \<longleftrightarrow> (\<exists>k. x = 2 ^ k)"
proof -
  have w: "0 < bits (common T)"
    using bits_common [OF assms(1)] by simp
  have "take_bit (bits (common T)) x = x"
    using in_range_common [OF assms(1,2)] assms(3) by (intro nonneg_take_bit_self) simp_all
  moreover have "is_power_of_2 T x \<longleftrightarrow>
      take_bit (bits (common T)) x = 0 \<or> (\<exists>k. take_bit (bits (common T)) x = 2 ^ k)"
    by (simp only: is_power_of_2_take_bit [OF w] and_pred_take_bit)
  ultimately show ?thesis using assms(3) by simp
qed

lemma ceiling_log2_between:
  fixes x :: int
  assumes "2 ^ i < x" and "x \<le> 2 ^ (i + 1)"
  shows "\<lceil>log 2 (real_of_int x)\<rceil> = int i + 1"
proof -
  define m where "m = nat x"
  have "(0::int) < 2 ^ i" by simp
  with assms(1) have "0 < x" by linarith
  then have x: "real_of_int x = real m" by (simp add: m_def)
  have "2 ^ i < m"
    using assms(1) \<open>0 < x\<close> by (simp add: m_def nat_less_iff)
  then have l: "real i < log 2 (real m)" by (rule less_log2_of_power)
  have "m \<le> 2 ^ (i + 1)"
    using assms(2) by (simp add: m_def nat_le_iff)
  moreover have "0 < m" using \<open>0 < x\<close> by (simp add: m_def)
  ultimately have u: "log 2 (real m) \<le> real (i + 1)" by (rule log2_of_power_le)
  have "\<lceil>log 2 (real m)\<rceil> = int i + 1"
    using l u by (intro ceiling_eq) simp_all
  then show ?thesis by (simp only: x)
qed

lemma ceiling_log2_power: "\<lceil>log 2 (real_of_int (2 ^ i))\<rceil> = int i"
proof -
  have "log 2 ((2::real) ^ i) = real i"
    by (rule log_pow_cancel) simp_all
  then show ?thesis by simp
qed

lemma log2_ri_ceiling:
  assumes "8 \<le> bits T" and "bits T \<le> 32" and "\<not> is_signed T" and "in_range T x"
    and "1 \<le> x" and "digits T < 32 \<or> shl_int ovf 32 = 0"
  shows "log2_ri ovf T x = \<lceil>log 2 (real_of_int x)\<rceil>"
proof -
  have "\<exists>n. 2 ^ n \<le> nat x \<and> nat x < 2 ^ (n + 1)"
    using assms(5) by (intro ex_power_ivl1) simp_all
  then obtain i where "2 ^ i \<le> nat x" "nat x < 2 ^ (i + 1)" by blast
  then have lo: "2 ^ i \<le> x" and hi: "x < 2 ^ (i + 1)"
    using assms(5) by (simp_all add: le_nat_iff nat_less_iff)
  have h: "highest_set_bit T x i"
    using assms(3,4) lo hi by (rule unsigned_highest_set_bit)
  have l: "log2 ovf T x = int i"
    using assms(1,2,4) h assms(6) by (rule log2_highest_set_bit)
  have p: "is_power_of_2 T x \<longleftrightarrow> (\<exists>k. x = 2 ^ k)"
    using assms(1,4,5) by (intro is_power_of_2_positive) simp_all
  show ?thesis
  proof (cases "x = 2 ^ i")
    case True
    then have "is_power_of_2 T x" using p by blast
    then have "log2_ri ovf T x = int i" by (simp add: log2_ri_def l)
    then show ?thesis by (simp only: True ceiling_log2_power)
  next
    case False
    have "\<not> is_power_of_2 T x"
    proof
      assume "is_power_of_2 T x"
      with p obtain k where k: "x = 2 ^ k" by blast
      with lo hi have a: "(2::int) ^ i \<le> 2 ^ k" and b: "(2::int) ^ k < 2 ^ Suc i"
        by simp_all
      from a have "i \<le> k" by simp
      moreover from b have "k < Suc i"
        by (simp only: power_strict_increasing_iff [of 2 k "Suc i"]) 
      ultimately have "k = i" by simp
      with k False show False by simp
    qed
    from h have "i < bits T" by (simp add: highest_set_bit_def)
    then have i1: "int i + 1 \<le> int (digits T)"
      using assms(3) by (simp add: digits_def)
    have ci: "conv (common T) (int i) = int i"
      using assms(1) i1 by (intro conv_common_count) simp_all
    have c1: "conv (common T) 1 = 1"
      using assms(1) by (intro conv_common_count) simp_all
    have cs: "conv (common T) (int i + 1) = int i + 1"
      using assms(1) i1 by (intro conv_common_count) simp_all
    have ts: "conv T (int i + 1) = int i + 1"
      using assms(1) i1 by (intro conv_count) simp_all
    have "conv T (add_in (common T) (int i) 1) = int i + 1"
      unfolding add_in_def ci c1 cs ts ..
    with \<open>\<not> is_power_of_2 T x\<close> have "log2_ri ovf T x = int i + 1"
      by (simp add: log2_ri_def l)
    moreover have "\<lceil>log 2 (real_of_int x)\<rceil> = int i + 1"
      using lo hi False by (intro ceiling_log2_between) simp_all
    ultimately show ?thesis by simp
  qed
qed

lemma log2_ri_examples:
  "map (log2_ri shl_saturating unsigned_int) [1, 5, 8, 9] = [0, 3, 3, 4]"
  by code_simp

text \<open>
  C6 at a 64-bit input. On the \<^verbatim>\<open>unsigned long long\<close> value \<open>2 ^ 40\<close> the rounded logarithm
  is 31 where shifts by 32 and more yield 0, and 63 where the shift count is taken
  modulo 32; the ceiling of the logarithm is 40.
\<close>

theorem log2_ri_wide_evaluation:
  "log2_ri shl_saturating unsigned_long_long (2 ^ 40) = 31 \<and>
   log2_ri shl_masked unsigned_long_long (2 ^ 40) = 63 \<and>
   \<lceil>log 2 (real_of_int (2 ^ 40))\<rceil> = 40"
proof -
  have "log2_ri shl_saturating unsigned_long_long (2 ^ 40) = 31" by code_simp
  moreover have "log2_ri shl_masked unsigned_long_long (2 ^ 40) = 63" by code_simp
  moreover have "\<lceil>log 2 (real_of_int (2 ^ 40))\<rceil> = 40"
  proof -
    have e: "log 2 ((2::real) ^ 40) = real 40"
      by (rule log_pow_cancel) simp_all
    have "\<lceil>log 2 (real_of_int (2 ^ 40))\<rceil> = \<lceil>log 2 ((2::real) ^ 40)\<rceil>"
      by (simp only: of_int_power of_int_numeral)
    also have "\<dots> = \<lceil>real 40\<rceil>" by (simp only: e)
    also have "\<dots> = 40" by simp
    finally show ?thesis .
  qed
  ultimately show ?thesis by blast
qed

section \<open>Decorated policies\<close>

lemma lookup_append_old: "p < length h \<Longrightarrow> lookup (h @ xs) p = lookup h p"
  by (simp add: lookup_def nth_append)

lemma lookup_append_new: "lookup (h @ [x]) (length h) = Some x"
  by (simp add: lookup_def)

lemma lookup_Some_less: "lookup h p = Some x \<Longrightarrow> p < length h"
  by (simp add: lookup_def split: if_splits)

lemma capture_pack_eq:
  "capture_pack cap vs s = (map cap vs, s\<lparr>captured := captured s @ vs\<rparr>)"
  by (induction vs arbitrary: s) (simp_all add: capture_as_dependency_def)

lemma new_execute_with_allocator_Base:
  assumes "lookup (heap s) p = Some (Base P)"
  shows "new_execute_with_allocator s p A =
           Some (length (heap s), s\<lparr>heap := heap s @ [With_allocator \<lparr>super = P, alloc = A\<rparr>]\<rparr>)"
  using assms by (simp add: new_execute_with_allocator_def)

lemma after_With_allocator:
  assumes "lookup (heap s) this = Some (With_allocator e)"
  shows "after cap s this deps =
           Some (length (heap s),
                 s\<lparr>captured := captured s @ deps,
                   heap := heap s @
                     [With_dependencies \<lparr>allocator = alloc e, dependencies = map cap deps\<rparr>]\<rparr>)"
  using assms
  by (simp add: after_def capture_pack_eq new_execute_with_allocator_and_dependencies_def)

lemma after_tuple_With_allocator:
  assumes "lookup (heap s) this = Some (With_allocator e)"
  shows "after_tuple cap s this deps =
           Some (length (heap s),
                 s\<lparr>captured := captured s @ deps,
                   heap := heap s @
                     [With_dependencies \<lparr>allocator = alloc e, dependencies = map cap deps\<rparr>]\<rparr>)"
  using assms
  by (simp add: after_tuple_def capture_as_dependency_tuple_def
      new_execute_with_allocator_and_dependencies_def)

lemma after_not_With_allocator:
  assumes "\<nexists>e. lookup (heap s) this = Some (With_allocator e)"
  shows "after cap s this deps = None" and "after_tuple cap s this deps = None"
  using assms by (auto simp: after_def after_tuple_def split: option.splits object.splits)

text \<open>
  C2. For every allocator policy and the same dependency inputs, \<^verbatim>\<open>after\<close> and
  \<^verbatim>\<open>rebind_after\<close> give the same result: the same new policy (same allocator, same
  ordered dependency sequence) in the same state, for the variadic and the tuple forms.
\<close>

theorem after_rebind_after_equivalent:
  "after cap s this deps = rebind_after cap s this deps \<and>
   after_tuple cap s this deps = rebind_after_tuple cap s this deps"
  by (simp add: after_def rebind_after_def after_tuple_def rebind_after_tuple_def)

text \<open>
  C7. For every policy and inputs \<open>h1\<close>, \<open>h2\<close>, the variadic form \<^verbatim>\<open>after(h1, h2)\<close> and the
  tuple form \<^verbatim>\<open>after(tuple(h1, h2))\<close> give the same decorated policy with the same ordered
  dependency sequence. The capture of a tuple is modelled from the specification.
\<close>

theorem after_tuple_variadic:
  "after cap s this [h1, h2] = after_tuple cap s this [h1, h2]"
proof (cases "\<exists>e. lookup (heap s) this = Some (With_allocator e)")
  case True
  then obtain e where "lookup (heap s) this = Some (With_allocator e)" ..
  then show ?thesis
    by (simp only: after_With_allocator after_tuple_With_allocator)
next
  case False
  then show ?thesis
    by (simp add: after_not_With_allocator)
qed

text \<open>
  C3. For every base policy \<open>P\<close>, allocator \<open>A\<close> and inputs \<open>h1\<close>, \<open>h2\<close>: decorating \<open>P\<close> with
  \<open>A\<close> and the result with the dependencies \<open>h1\<close>, \<open>h2\<close> gives a policy whose allocator is
  \<open>A\<close> and whose dependency sequence is the captured \<open>h1\<close> followed by the captured \<open>h2\<close>; the
  capture conversion is called once on \<open>h1\<close> and then once on \<open>h2\<close>.
\<close>

theorem decorate_then_after:
  assumes "lookup (heap s) p = Some (Base P)"
  shows "\<exists>d s1 r s2.
           new_execute_with_allocator s p A = Some (d, s1) \<and>
           after cap s1 d [h1, h2] = Some (r, s2) \<and>
           lookup (heap s2) r =
             Some (With_dependencies \<lparr>allocator = A, dependencies = [cap h1, cap h2]\<rparr>) \<and>
           captured s2 = captured s @ [h1, h2]"
proof -
  define s1 where "s1 = s\<lparr>heap := heap s @ [With_allocator \<lparr>super = P, alloc = A\<rparr>]\<rparr>"
  define s2 where "s2 = s1\<lparr>captured := captured s1 @ [h1, h2], heap := heap s1 @
    [With_dependencies \<lparr>allocator = A, dependencies = [cap h1, cap h2]\<rparr>]\<rparr>"
  have c: "new_execute_with_allocator s p A = Some (length (heap s), s1)"
    using assms by (simp add: new_execute_with_allocator_Base s1_def)
  have "lookup (heap s1) (length (heap s)) = Some (With_allocator \<lparr>super = P, alloc = A\<rparr>)"
    by (simp add: s1_def lookup_append_new)
  then have a: "after cap s1 (length (heap s)) [h1, h2] = Some (length (heap s1), s2)"
    by (simp add: after_With_allocator s2_def)
  have l: "lookup (heap s2) (length (heap s1)) =
      Some (With_dependencies \<lparr>allocator = A, dependencies = [cap h1, cap h2]\<rparr>)"
    by (simp add: s2_def lookup_append_new)
  have t: "captured s2 = captured s @ [h1, h2]"
    by (simp add: s2_def s1_def)
  from c a l t show ?thesis by blast
qed

theorem decorate_then_after_witness:
  "lookup (heap (\<lparr>heap = [Base ()], captured = []\<rparr> :: (unit, nat, nat, nat) state)) 0 =
     Some (Base ()) \<and>
   (\<exists>d s1 r s2.
      new_execute_with_allocator
        (\<lparr>heap = [Base ()], captured = []\<rparr> :: (unit, nat, nat, nat) state) 0 (Held 7)
        = Some (d, s1) \<and>
      after Suc s1 d [1, 2] = Some (r, s2) \<and>
      lookup (heap s2) r =
        Some (With_dependencies \<lparr>allocator = Held 7, dependencies = [Suc 1, Suc 2]\<rparr>) \<and>
      captured s2 = captured (\<lparr>heap = [Base ()], captured = []\<rparr> :: (unit, nat, nat, nat) state) @ [1, 2])"
proof
  show h: "lookup (heap (\<lparr>heap = [Base ()], captured = []\<rparr> :: (unit, nat, nat, nat) state)) 0 =
     Some (Base ())"
    by (simp add: lookup_def)
  show "\<exists>d s1 r s2.
      new_execute_with_allocator
        (\<lparr>heap = [Base ()], captured = []\<rparr> :: (unit, nat, nat, nat) state) 0 (Held 7)
        = Some (d, s1) \<and>
      after Suc s1 d [1, 2] = Some (r, s2) \<and>
      lookup (heap s2) r =
        Some (With_dependencies \<lparr>allocator = Held 7, dependencies = [Suc 1, Suc 2]\<rparr>) \<and>
      captured s2 = captured (\<lparr>heap = [Base ()], captured = []\<rparr> :: (unit, nat, nat, nat) state) @ [1, 2]"
    by (rule decorate_then_after [OF h])
qed

text \<open>
  C8, as the code has it. For every base policy \<open>P\<close> and allocator \<open>A\<close>: where \<^verbatim>\<open>Allocator\<close>
  is an object type, the policy constructed from \<open>P\<close> and \<open>A\<close> holds \<open>A\<close>, and
  \<^verbatim>\<open>get_allocator\<close> returns a reference to that member; where \<^verbatim>\<open>Allocator\<close> is a reference
  type, the policy is bound to the allocator object it was given, and \<^verbatim>\<open>get_allocator\<close>
  returns a reference to that object. In both cases reading the reference gives \<open>A\<close>,
  the call leaves the state as it is (nothing is copied), and an assignment through
  the reference changes the allocator referred to.
\<close>

theorem get_allocator_refers:
  assumes "lookup (heap s) p = Some (Base P)"
  shows "(\<exists>d s1.
           new_execute_with_allocator s p (Held A) = Some (d, s1) \<and>
           lookup (heap s1) d = Some (With_allocator \<lparr>super = P, alloc = Held A\<rparr>) \<and>
           get_allocator s1 d = Some (Alloc_of d, s1) \<and>
           read_ref s1 (Alloc_of d) = Some A \<and>
           (\<exists>s2. write_ref s1 (Alloc_of d) A' = Some s2 \<and>
                 lookup (heap s2) d = Some (With_allocator \<lparr>super = P, alloc = Held A'\<rparr>) \<and>
                 read_ref s2 (Alloc_of d) = Some A')) \<and>
         (lookup (heap s) r = Some (Allocator_object A) \<longrightarrow>
          (\<exists>d s1.
           new_execute_with_allocator s p (Bound r) = Some (d, s1) \<and>
           lookup (heap s1) d = Some (With_allocator \<lparr>super = P, alloc = Bound r\<rparr>) \<and>
           get_allocator s1 d = Some (Object_at r, s1) \<and>
           read_ref s1 (Object_at r) = Some A \<and>
           (\<exists>s2. write_ref s1 (Object_at r) A' = Some s2 \<and>
                 lookup (heap s2) r = Some (Allocator_object A') \<and>
                 lookup (heap s2) d = lookup (heap s1) d \<and>
                 read_ref s2 (Object_at r) = Some A')))"
proof (intro conjI impI)
  define s1 where "s1 = s\<lparr>heap := heap s @ [With_allocator \<lparr>super = P, alloc = Held A\<rparr>]\<rparr>"
  define d where "d = length (heap s)"
  have c: "new_execute_with_allocator s p (Held A) = Some (d, s1)"
    using assms by (simp add: new_execute_with_allocator_Base s1_def d_def)
  have l: "lookup (heap s1) d = Some (With_allocator \<lparr>super = P, alloc = Held A\<rparr>)"
    by (simp add: s1_def d_def lookup_append_new)
  have g: "get_allocator s1 d = Some (Alloc_of d, s1)"
    using l by (simp add: get_allocator_def)
  have r: "read_ref s1 (Alloc_of d) = Some A"
    using l by simp
  define s2 where
    "s2 = s1\<lparr>heap := (heap s1)[d := With_allocator \<lparr>super = P, alloc = Held A'\<rparr>]\<rparr>"
  have w: "write_ref s1 (Alloc_of d) A' = Some s2"
    using l by (simp add: s2_def)
  have l2: "lookup (heap s2) d = Some (With_allocator \<lparr>super = P, alloc = Held A'\<rparr>)"
    by (simp add: s2_def s1_def d_def lookup_def)
  then have r2: "read_ref s2 (Alloc_of d) = Some A'"
    by simp
  from c l g r w l2 r2 show "\<exists>d s1.
      new_execute_with_allocator s p (Held A) = Some (d, s1) \<and>
      lookup (heap s1) d = Some (With_allocator \<lparr>super = P, alloc = Held A\<rparr>) \<and>
      get_allocator s1 d = Some (Alloc_of d, s1) \<and>
      read_ref s1 (Alloc_of d) = Some A \<and>
      (\<exists>s2. write_ref s1 (Alloc_of d) A' = Some s2 \<and>
            lookup (heap s2) d = Some (With_allocator \<lparr>super = P, alloc = Held A'\<rparr>) \<and>
            read_ref s2 (Alloc_of d) = Some A')"
    by blast
next
  assume a: "lookup (heap s) r = Some (Allocator_object A)"
  then have rl: "r < length (heap s)" by (rule lookup_Some_less)
  define s1 where "s1 = s\<lparr>heap := heap s @ [With_allocator \<lparr>super = P, alloc = Bound r\<rparr>]\<rparr>"
  define d where "d = length (heap s)"
  have c: "new_execute_with_allocator s p (Bound r) = Some (d, s1)"
    using assms by (simp add: new_execute_with_allocator_Base s1_def d_def)
  have l: "lookup (heap s1) d = Some (With_allocator \<lparr>super = P, alloc = Bound r\<rparr>)"
    by (simp add: s1_def d_def lookup_append_new)
  have g: "get_allocator s1 d = Some (Object_at r, s1)"
    using l by (simp add: get_allocator_def)
  have a1: "lookup (heap s1) r = Some (Allocator_object A)"
    using a rl by (simp add: s1_def lookup_append_old)
  then have rd: "read_ref s1 (Object_at r) = Some A"
    by simp
  define s2 where "s2 = s1\<lparr>heap := (heap s1)[r := Allocator_object A']\<rparr>"
  have w: "write_ref s1 (Object_at r) A' = Some s2"
    using a1 by (simp add: s2_def)
  have l2: "lookup (heap s2) r = Some (Allocator_object A')"
    using rl by (simp add: s2_def s1_def lookup_def)
  then have r2: "read_ref s2 (Object_at r) = Some A'"
    by simp
  have k: "lookup (heap s2) d = lookup (heap s1) d"
    using rl by (simp add: s2_def s1_def d_def lookup_def)
  from c l g rd w l2 k r2 show "\<exists>d s1.
      new_execute_with_allocator s p (Bound r) = Some (d, s1) \<and>
      lookup (heap s1) d = Some (With_allocator \<lparr>super = P, alloc = Bound r\<rparr>) \<and>
      get_allocator s1 d = Some (Object_at r, s1) \<and>
      read_ref s1 (Object_at r) = Some A \<and>
      (\<exists>s2. write_ref s1 (Object_at r) A' = Some s2 \<and>
            lookup (heap s2) r = Some (Allocator_object A') \<and>
            lookup (heap s2) d = lookup (heap s1) d \<and>
            read_ref s2 (Object_at r) = Some A')"
    by blast
qed

theorem get_allocator_refers_witness:
  "lookup (heap (\<lparr>heap = [Base (), Allocator_object 7], captured = []\<rparr>
      :: (unit, nat, nat, nat) state)) 0 = Some (Base ()) \<and>
   lookup (heap (\<lparr>heap = [Base (), Allocator_object 7], captured = []\<rparr>
      :: (unit, nat, nat, nat) state)) 1 = Some (Allocator_object 7) \<and>
   (\<exists>d s1.
      new_execute_with_allocator
        (\<lparr>heap = [Base (), Allocator_object 7], captured = []\<rparr>
           :: (unit, nat, nat, nat) state) 0 (Held 7) = Some (d, s1) \<and>
      get_allocator s1 d = Some (Alloc_of d, s1) \<and>
      read_ref s1 (Alloc_of d) = Some 7) \<and>
   (\<exists>d s1.
      new_execute_with_allocator
        (\<lparr>heap = [Base (), Allocator_object 7], captured = []\<rparr>
           :: (unit, nat, nat, nat) state) 0 (Bound 1) = Some (d, s1) \<and>
      get_allocator s1 d = Some (Object_at 1, s1) \<and>
      read_ref s1 (Object_at 1) = Some 7)"
proof -
  let ?s = "\<lparr>heap = [Base (), Allocator_object 7], captured = []\<rparr>
      :: (unit, nat, nat, nat) state"
  have h: "lookup (heap ?s) 0 = Some (Base ())"
    by (simp add: lookup_def)
  have a: "lookup (heap ?s) 1 = Some (Allocator_object 7)"
    by (simp add: lookup_def)
  show ?thesis
    using h a get_allocator_refers [OF h, of 7 9 1] by blast
qed

text \<open>
  With a reference type for \<^verbatim>\<open>Allocator\<close> nothing is embedded by value: the policy
  constructed from the allocator object at address 1, which holds 7, has no allocator
  of its own, and once that object is assigned 9 the accessor of the policy reads 9.
\<close>

theorem get_allocator_by_value_counterexample:
  "new_execute_with_allocator
     (\<lparr>heap = [Base (), Allocator_object 7], captured = []\<rparr>
        :: (unit, nat, nat, nat) state) 0 (Bound 1) =
     Some (2, \<lparr>heap = [Base (), Allocator_object 7,
                       With_allocator \<lparr>super = (), alloc = Bound 1\<rparr>], captured = []\<rparr>) \<and>
   read_ref
     (\<lparr>heap = [Base (), Allocator_object 7,
               With_allocator \<lparr>super = (), alloc = Bound 1\<rparr>], captured = []\<rparr>
        :: (unit, nat, nat, nat) state) (Alloc_of 2) = None \<and>
   write_ref
     (\<lparr>heap = [Base (), Allocator_object 7,
               With_allocator \<lparr>super = (), alloc = Bound 1\<rparr>], captured = []\<rparr>
        :: (unit, nat, nat, nat) state) (Object_at 1) 9 =
     Some \<lparr>heap = [Base (), Allocator_object 9,
                  With_allocator \<lparr>super = (), alloc = Bound 1\<rparr>], captured = []\<rparr> \<and>
   get_allocator
     (\<lparr>heap = [Base (), Allocator_object 9,
               With_allocator \<lparr>super = (), alloc = Bound 1\<rparr>], captured = []\<rparr>
        :: (unit, nat, nat, nat) state) 2 =
     Some (Object_at 1,
           \<lparr>heap = [Base (), Allocator_object 9,
                   With_allocator \<lparr>super = (), alloc = Bound 1\<rparr>], captured = []\<rparr>) \<and>
   read_ref
     (\<lparr>heap = [Base (), Allocator_object 9,
               With_allocator \<lparr>super = (), alloc = Bound 1\<rparr>], captured = []\<rparr>
        :: (unit, nat, nat, nat) state) (Object_at 1) = Some 9"
  by (simp add: new_execute_with_allocator_def get_allocator_def lookup_def)

lemma new_execute_with_allocator_Some:
  assumes "new_execute_with_allocator s p A = Some (d, s1)"
  obtains b where "Option.bind (lookup (heap s) p) base_of = Some b"
    and "d = length (heap s)"
    and "s1 = s\<lparr>heap := heap s @ [With_allocator \<lparr>super = b, alloc = A\<rparr>]\<rparr>"
  using assms by (auto simp: new_execute_with_allocator_def split: option.splits)

lemma after_Some:
  assumes "after cap s this deps = Some (r, s1)"
  obtains e where "lookup (heap s) this = Some (With_allocator e)"
  using assms by (auto simp: after_def split: option.splits object.splits)

lemma new_execute_with_allocator_frame:
  assumes "new_execute_with_allocator s p A = Some (d, s1)"
  shows "take (length (heap s)) (heap s1) = heap s"
    and "d = length (heap s)"
    and "captured s1 = captured s"
    and "lookup (heap s1) p = lookup (heap s) p"
    and "new_execute_with_allocator s1 p A2 \<noteq> None"
    and "object_of (new_execute_with_allocator s1 p A2) =
         object_of (new_execute_with_allocator s p A2)"
proof -
  from assms obtain b where b: "Option.bind (lookup (heap s) p) base_of = Some b"
    and d: "d = length (heap s)"
    and s1: "s1 = s\<lparr>heap := heap s @ [With_allocator \<lparr>super = b, alloc = A\<rparr>]\<rparr>"
    by (rule new_execute_with_allocator_Some)
  show "take (length (heap s)) (heap s1) = heap s" by (simp add: s1)
  show "d = length (heap s)" by (fact d)
  show "captured s1 = captured s" by (simp add: s1)
  from b have "p < length (heap s)"
    by (auto simp: lookup_def split: if_splits)
  then show l: "lookup (heap s1) p = lookup (heap s) p"
    by (simp add: s1 lookup_append_old)
  with b have b1: "Option.bind (lookup (heap s1) p) base_of = Some b" by simp
  from b1 show "new_execute_with_allocator s1 p A2 \<noteq> None"
    by (simp add: new_execute_with_allocator_def)
  from b b1 show "object_of (new_execute_with_allocator s1 p A2) =
      object_of (new_execute_with_allocator s p A2)"
    by (simp add: new_execute_with_allocator_def object_of_def lookup_append_new)
qed

lemma after_frame:
  assumes "after cap s this deps = Some (r, s1)"
  shows "take (length (heap s)) (heap s1) = heap s"
    and "r = length (heap s)"
    and "lookup (heap s1) this = lookup (heap s) this"
    and "after cap s1 this deps2 \<noteq> None"
    and "object_of (after cap s1 this deps2) = object_of (after cap s this deps2)"
proof -
  from assms obtain e where e: "lookup (heap s) this = Some (With_allocator e)"
    by (rule after_Some)
  from assms have s1: "s1 = s\<lparr>captured := captured s @ deps,
      heap := heap s @ [With_dependencies \<lparr>allocator = alloc e, dependencies = map cap deps\<rparr>]\<rparr>"
    and r: "r = length (heap s)"
    by (simp_all add: after_With_allocator [OF e])
  show "take (length (heap s)) (heap s1) = heap s" by (simp add: s1)
  show "r = length (heap s)" by (fact r)
  from e have "this < length (heap s)" by (rule lookup_Some_less)
  then show l: "lookup (heap s1) this = lookup (heap s) this"
    by (simp add: s1 lookup_append_old)
  with e have e1: "lookup (heap s1) this = Some (With_allocator e)" by simp
  show "after cap s1 this deps2 \<noteq> None"
    by (simp add: after_With_allocator [OF e1])
  show "object_of (after cap s1 this deps2) = object_of (after cap s this deps2)"
    by (simp add: after_With_allocator [OF e1] after_With_allocator [OF e] object_of_def
        lookup_append_new)
qed

text \<open>
  C9. Constructing an allocator policy from a policy at \<open>p\<close>, and calling \<^verbatim>\<open>after\<close> on an
  allocator policy at \<open>this\<close>, leave every object of the store as it was, the source
  among them; the source can be decorated again, and the policy that gives is the one
  it would have given before.
\<close>

theorem decoration_is_pure:
  "(new_execute_with_allocator s p A = Some (d, s1) \<longrightarrow>
      take (length (heap s)) (heap s1) = heap s \<and>
      lookup (heap s1) p = lookup (heap s) p \<and>
      new_execute_with_allocator s1 p A2 \<noteq> None \<and>
      object_of (new_execute_with_allocator s1 p A2) =
        object_of (new_execute_with_allocator s p A2)) \<and>
   (after cap s this deps = Some (r, s2) \<longrightarrow>
      take (length (heap s)) (heap s2) = heap s \<and>
      lookup (heap s2) this = lookup (heap s) this \<and>
      after cap s2 this deps2 \<noteq> None \<and>
      object_of (after cap s2 this deps2) = object_of (after cap s this deps2))"
proof (intro conjI impI)
  assume c: "new_execute_with_allocator s p A = Some (d, s1)"
  show "take (length (heap s)) (heap s1) = heap s"
    using c by (rule new_execute_with_allocator_frame)
  show "lookup (heap s1) p = lookup (heap s) p"
    using c by (rule new_execute_with_allocator_frame)
  show "new_execute_with_allocator s1 p A2 \<noteq> None"
    using c by (rule new_execute_with_allocator_frame)
  show "object_of (new_execute_with_allocator s1 p A2) =
      object_of (new_execute_with_allocator s p A2)"
    using c by (rule new_execute_with_allocator_frame)
next
  assume a: "after cap s this deps = Some (r, s2)"
  show "take (length (heap s)) (heap s2) = heap s"
    using a by (rule after_frame)
  show "lookup (heap s2) this = lookup (heap s) this"
    using a by (rule after_frame)
  show "after cap s2 this deps2 \<noteq> None"
    using a by (rule after_frame)
  show "object_of (after cap s2 this deps2) = object_of (after cap s this deps2)"
    using a by (rule after_frame)
qed

theorem decoration_is_pure_witness:
  "new_execute_with_allocator
     (\<lparr>heap = [Base (), With_allocator \<lparr>super = (), alloc = Held 7\<rparr>], captured = []\<rparr>
        :: (unit, nat, nat, nat) state) 0 (Held 8) =
     Some (2, \<lparr>heap = [Base (), With_allocator \<lparr>super = (), alloc = Held 7\<rparr>,
                       With_allocator \<lparr>super = (), alloc = Held 8\<rparr>], captured = []\<rparr>) \<and>
   lookup [Base (), With_allocator \<lparr>super = (), alloc = Held (7 :: nat)\<rparr>,
           (With_allocator \<lparr>super = (), alloc = Held 8\<rparr> :: (unit, nat, nat) object)] 0 =
     Some (Base ()) \<and>
   after Suc
     (\<lparr>heap = [Base (), With_allocator \<lparr>super = (), alloc = Held 7\<rparr>], captured = []\<rparr>
        :: (unit, nat, nat, nat) state) 1 [1, 2] =
     Some (2, \<lparr>heap = [Base (), With_allocator \<lparr>super = (), alloc = Held 7\<rparr>,
                       With_dependencies \<lparr>allocator = Held 7, dependencies = [2, 3]\<rparr>],
               captured = [1, 2]\<rparr>) \<and>
   after Suc
     (\<lparr>heap = [Base (), With_allocator \<lparr>super = (), alloc = Held 7\<rparr>,
               With_dependencies \<lparr>allocator = Held 7, dependencies = [2, 3]\<rparr>],
       captured = [1, 2]\<rparr> :: (unit, nat, nat, nat) state) 1 [5] \<noteq> None"
proof -
  let ?s = "\<lparr>heap = [Base (), With_allocator \<lparr>super = (), alloc = Held 7\<rparr>], captured = []\<rparr>
        :: (unit, nat, nat, nat) state"
  let ?s1 = "\<lparr>heap = [Base (), With_allocator \<lparr>super = (), alloc = Held 7\<rparr>,
                       With_allocator \<lparr>super = (), alloc = Held 8\<rparr>], captured = []\<rparr>
        :: (unit, nat, nat, nat) state"
  let ?s2 = "\<lparr>heap = [Base (), With_allocator \<lparr>super = (), alloc = Held 7\<rparr>,
               With_dependencies \<lparr>allocator = Held 7, dependencies = [2, 3]\<rparr>],
       captured = [1, 2]\<rparr> :: (unit, nat, nat, nat) state"
  have c: "new_execute_with_allocator ?s 0 (Held 8) = Some (2, ?s1)"
    by (simp add: new_execute_with_allocator_def lookup_def)
  have a: "after Suc ?s 1 [1, 2] = Some (2, ?s2)"
    by (simp add: after_def lookup_def capture_as_dependency_def
        new_execute_with_allocator_and_dependencies_def)
  have l: "lookup (heap ?s) 0 = Some (Base ())"
    by (simp add: lookup_def)
  note t = decoration_is_pure [of ?s 0 "Held 8" 2 ?s1 _ Suc 1 "[1, 2]" 2 ?s2 "[5]"]
  from t c l have "lookup (heap ?s1) 0 = Some (Base ())" by metis
  moreover from t a have "after Suc ?s2 1 [5] \<noteq> None" by metis
  ultimately show ?thesis using c a by simp
qed

end
